theory Spec2Isabelle
  imports Main "HOL-Library.Multiset"
begin

section \<open>The abbreviation tree\<close>

text \<open>
  The embedding follows \<^verbatim>\<open>src/javascript/parsers/abbreviationParser2.js\<close>.

  An \<^verbatim>\<open>AbbreviationNode\<close> is an object with scalar fields, an array of attribute
  objects, a data dictionary, an array of child nodes and a back reference to its parent.
  The scalar fields, the attributes and the dictionary are the record \<open>props\<close>; a node is
  its address \<open>ident\<close> (the identity of the JavaScript object, chosen by the allocator
  when \<^verbatim>\<open>new AbbreviationNode\<close> runs), its \<open>props\<close> and its children. The
  \<^verbatim>\<open>parent\<close> field is not stored: in every tree built by this module a node's parent
  is the node whose \<^verbatim>\<open>children\<close> array holds it (\<^verbatim>\<open>addChild\<close> and
  \<^verbatim>\<open>replace\<close> set it so), so the parent is the position in the tree. The output
  fields \<^verbatim>\<open>start\<close>, \<^verbatim>\<open>end\<close> and \<^verbatim>\<open>padding\<close> are written by no function
  of the module and stay empty; they are left out.
\<close>

datatype attr = Attr (attr_name: string) (attr_value: string)

text \<open>
  Modelled from the spec: the resource descriptor of the external \<^verbatim>\<open>elements\<close> module
  (spec section 6, Resource Resolver). A descriptor of kind element exposes a canonical
  name and a list of default attributes; \<^verbatim>\<open>require('elements').is(res, 'element')\<close>
  holds for the constructor \<open>Element\<close> only.
\<close>

datatype resource = Element string "attr list" | Snippet string

record props =
  raw_abbreviation :: string
  counter :: int
  p_name :: "string option"
  p_text :: string
  repeatCount :: int
  hasImplicitRepeat :: bool
  p_attributes :: "attr list"
  p_data :: "(string \<times> resource) list"

datatype node = Node (ident: nat) (props: props) (children: "node list")

text \<open>The constructor \<^verbatim>\<open>new AbbreviationNode\<close>, at the address the allocator hands out.\<close>

definition new_props :: props where
  "new_props = \<lparr> raw_abbreviation = [], counter = 1, p_name = None, p_text = [],
     repeatCount = 1, hasImplicitRepeat = False, p_attributes = [], p_data = [] \<rparr>"

definition AbbreviationNode :: "nat \<Rightarrow> node" where
  "AbbreviationNode a = Node a new_props []"

text \<open>\<^verbatim>\<open>isGroup\<close>, \<^verbatim>\<open>isEmpty\<close>, \<^verbatim>\<open>isRepeating\<close>: an empty string is falsy.\<close>

definition isGroup :: "node \<Rightarrow> bool" where
  "isGroup n = (raw_abbreviation (props n) = [])"

definition isEmpty :: "node \<Rightarrow> bool" where
  "isEmpty n = (raw_abbreviation (props n) = [] \<and> length (children n) = 0)"

definition isRepeating :: "node \<Rightarrow> bool" where
  "isRepeating n = (repeatCount (props n) > 1 \<or> hasImplicitRepeat (props n))"

section \<open>The squash pass\<close>

text \<open>
  \<^verbatim>\<open>n.replace(items)\<close> splices \<open>items\<close> over the one element at the index of \<open>n\<close> in its
  parent's children; \<open>n\<close> is \<^verbatim>\<open>node.children[i]\<close> and occurs there once, so the index
  is \<open>i\<close>. \<^verbatim>\<open>n.remove()\<close> keeps the children that are not the object \<open>n\<close>.
\<close>

definition replace :: "nat \<Rightarrow> node list \<Rightarrow> node list \<Rightarrow> node list" where
  "replace i items cs = take i cs @ items @ drop (Suc i) cs"

definition remove :: "node \<Rightarrow> node list \<Rightarrow> node list" where
  "remove n cs = filter (\<lambda>c. ident c \<noteq> ident n) cs"

text \<open>
  The loop \<^verbatim>\<open>for (i = length - 1; i >= 0; i--)\<close> of \<^verbatim>\<open>squash\<close>; the first argument
  is \<open>i + 1\<close>. The array is read again at every round, after the splices of the rounds
  before.
\<close>

fun squash_for :: "nat \<Rightarrow> node list \<Rightarrow> node list" where
  "squash_for 0 cs = cs"
| "squash_for (Suc i) cs =
     (let n = cs ! i in
      if isGroup n then squash_for i (replace i (children n) cs)
      else if isEmpty n then squash_for i (remove n cs)
      else squash_for i cs)"

text \<open>What one round does to one child: a group gives way to its children.\<close>

definition flatten_child :: "node \<Rightarrow> node list" where
  "flatten_child n = (if isGroup n then children n else [n])"

lemma isEmpty_isGroup: "isEmpty n \<Longrightarrow> isGroup n"
  by (simp add: isEmpty_def isGroup_def)

lemma squash_for_prefix:
  "k \<le> length cs \<Longrightarrow>
     squash_for k cs = concat (map flatten_child (take k cs)) @ drop k cs"
proof (induction k arbitrary: cs)
  case 0
  then show ?case by simp
next
  case (Suc k)
  let ?n = "cs ! k"
  have kl: "k < length cs" using Suc.prems by simp
  have tk: "take (Suc k) cs = take k cs @ [?n]"
    using kl by (simp add: take_Suc_conv_app_nth)
  have dk: "drop k cs = ?n # drop (Suc k) cs"
    using kl by (simp add: Cons_nth_drop_Suc)
  show ?case
  proof (cases "isGroup ?n")
    case True
    let ?cs' = "replace k (children ?n) cs"
    have fc: "flatten_child ?n = children ?n" using True by (simp add: flatten_child_def)
    have len: "k \<le> length ?cs'" using kl by (simp add: replace_def)
    have t: "take k ?cs' = take k cs" using kl by (simp add: replace_def)
    have d: "drop k ?cs' = children ?n @ drop (Suc k) cs"
      using kl by (simp add: replace_def)
    have "squash_for (Suc k) cs = squash_for k ?cs'"
      using True by (simp add: Let_def)
    also have "\<dots> = concat (map flatten_child (take k cs)) @ children ?n @ drop (Suc k) cs"
      using Suc.IH [OF len] by (simp add: t d)
    finally show ?thesis using fc by (simp add: tk)
  next
    case False
    then have ne: "\<not> isEmpty ?n" using isEmpty_isGroup by blast
    have fc: "flatten_child ?n = [?n]" using False by (simp add: flatten_child_def)
    have "squash_for (Suc k) cs = squash_for k cs"
      using False ne by (simp add: Let_def)
    also have "\<dots> = concat (map flatten_child (take k cs)) @ drop k cs"
      using Suc.IH [of cs] kl by simp
    finally show ?thesis using fc by (simp add: tk dk)
  qed
qed

lemma squash_for_all:
  "squash_for (length cs) cs = concat (map flatten_child cs)"
  by (simp add: squash_for_prefix)

lemma squash_for_size:
  assumes "x \<in> set (squash_for (length cs) cs)"
  shows "size x < Suc (size_list size cs)"
proof -
  from assms obtain c where c: "c \<in> set cs" and x: "x \<in> set (flatten_child c)"
    by (auto simp: squash_for_all)
  have "size x \<le> size c"
  proof (cases "isGroup c")
    case True
    then have "x \<in> set (children c)" using x by (simp add: flatten_child_def)
    then have "size x \<le> size_list size (children c)"
      by (rule size_list_estimation') simp
    then show ?thesis by (cases c) simp
  next
    case False
    then show ?thesis using x by (simp add: flatten_child_def)
  qed
  moreover have "size c \<le> size_list size cs"
    using c by (rule size_list_estimation') simp
  ultimately show ?thesis by simp
qed

text \<open>
  \<^verbatim>\<open>squash\<close>: the loop over the node's own children, then
  \<^verbatim>\<open>_.each(node.children, squash)\<close> over the list the loop has left.
\<close>

function squash :: "node \<Rightarrow> node" where
  "squash (Node a p cs) = Node a p (map squash (squash_for (length cs) cs))"
  by pat_completeness auto
termination
  by (relation "measure size") (auto dest: squash_for_size)

section \<open>Attributes\<close>

text \<open>
  \<^verbatim>\<open>toLowerCase\<close> on the ASCII letters; the names the attribute parser reads are ASCII.
\<close>

definition to_lower :: "char \<Rightarrow> char" where
  "to_lower c = (if 65 \<le> (of_char c :: nat) \<and> (of_char c :: nat) \<le> 90
                 then char_of ((of_char c :: nat) + 32) else c)"

definition toLowerCase :: "string \<Rightarrow> string" where
  "toLowerCase s = map to_lower s"

text \<open>
  \<^verbatim>\<open>optimizeAttributes\<close> filters the (copied) attributes with a dictionary \<open>lookup\<close>
  from names to the attribute objects kept so far. A name that is not \<^verbatim>\<open>in lookup\<close>
  is kept and entered; otherwise the kept object of that name is updated in place and the
  attribute is dropped. \<^verbatim>\<open>lookup\<close> starts as \<^verbatim>\<open>{}\<close>, and \<^verbatim>\<open>in\<close> also sees the
  properties every object inherits, so an attribute with such a name takes the second
  branch from the start, changes no kept attribute and is dropped.
\<close>

definition objectPrototypeKeys :: "string list" where
  "objectPrototypeKeys = [''constructor'', ''toString'', ''toLocaleString'', ''valueOf'',
     ''hasOwnProperty'', ''isPrototypeOf'', ''propertyIsEnumerable'', ''__proto__'',
     ''__defineGetter__'', ''__defineSetter__'', ''__lookupGetter__'', ''__lookupSetter__'']"

definition in_lookup :: "string \<Rightarrow> attr list \<Rightarrow> bool" where
  "in_lookup nm kept = (nm \<in> set (map attr_name kept) \<or> nm \<in> set objectPrototypeKeys)"

definition merge_value :: "attr \<Rightarrow> attr \<Rightarrow> attr" where
  "merge_value a la =
     (if toLowerCase (attr_name a) = ''class''
      then Attr (attr_name la)
             (attr_value la @ (if length (attr_value la) \<noteq> 0 then '' '' else []) @ attr_value a)
      else Attr (attr_name la) (attr_value a))"

definition merge_attr :: "attr \<Rightarrow> attr list \<Rightarrow> attr list" where
  "merge_attr a kept = map (\<lambda>la. if attr_name la = attr_name a then merge_value a la else la) kept"

fun optimize_filter :: "attr list \<Rightarrow> attr list \<Rightarrow> attr list" where
  "optimize_filter [] kept = kept"
| "optimize_filter (a # as) kept =
     (if \<not> in_lookup (attr_name a) kept then optimize_filter as (kept @ [a])
      else optimize_filter as (merge_attr a kept))"

definition optimizeAttributes :: "attr list \<Rightarrow> attr list" where
  "optimizeAttributes attrs = optimize_filter attrs []"

text \<open>
  \<^verbatim>\<open>data(name)\<close> reads the dictionary, \<^verbatim>\<open>matchedResource\<close> its key
  \<^verbatim>\<open>'resource'\<close>; \<^verbatim>\<open>name\<close>, \<^verbatim>\<open>attributeList\<close> and \<^verbatim>\<open>attribute\<close> are the
  accessors of the node. \<^verbatim>\<open>undefined\<close> is \<open>None\<close>.
\<close>

definition data :: "node \<Rightarrow> string \<Rightarrow> resource option" where
  "data n key = map_of (p_data (props n)) key"

definition matchedResource :: "node \<Rightarrow> resource option" where
  "matchedResource n = data n ''resource''"

definition name :: "node \<Rightarrow> string option" where
  "name n = (case matchedResource n of
               Some (Element nm as) \<Rightarrow> Some nm
             | _ \<Rightarrow> p_name (props n))"

definition attributeList :: "node \<Rightarrow> attr list" where
  "attributeList n =
     (let attrs = (case matchedResource n of Some (Element nm as) \<Rightarrow> [] @ as | _ \<Rightarrow> [])
      in optimizeAttributes (attrs @ p_attributes (props n)))"

definition attribute :: "node \<Rightarrow> string \<Rightarrow> string option" where
  "attribute n nm =
     (case find (\<lambda>a. attr_name a = nm) (attributeList n) of
        Some a \<Rightarrow> Some (attr_name a)
      | None \<Rightarrow> None)"

section \<open>Errors and the character cursor\<close>

text \<open>
  Every \<^verbatim>\<open>throw\<close> of the module is a value of \<open>error\<close>:
  \<^verbatim>\<open>'Invalid abbreviation'\<close> (the name check of \<^verbatim>\<open>setAbbreviation\<close>),
  \<^verbatim>\<open>'Invalid abbreviation: mo matching "c" found for character at n'\<close> (the constructor
  keeps the missing closing character \<open>c\<close>, not the position),
  \<^verbatim>\<open>'Endless loop detected'\<close>, \<^verbatim>\<open>'Invalid attribute value'\<close> and
  \<^verbatim>\<open>'Invalid attribute set definition'\<close>. \<open>TypeError\<close> is what JavaScript raises
  when a method is called on \<^verbatim>\<open>null\<close>. A function that can throw returns
  \<open>error + 'a\<close>; a function that can also run forever returns \<open>(error + 'a) option\<close>,
  with \<open>None\<close> for the run that never returns.
\<close>

datatype error =
    InvalidAbbreviation
  | NoMatchingPair char
  | EndlessLoop
  | InvalidAttributeValue
  | InvalidAttributeSet
  | TypeError

text \<open>
  Modelled from the spec: the string trim utility \<^verbatim>\<open>require('utils').trim\<close> (spec
  section 6), which removes leading and trailing whitespace. Strings are lists of
  characters and the whitespace characters are the ASCII ones.
\<close>

definition isSpace :: "char \<Rightarrow> bool" where
  "isSpace c = (c \<in> set [CHR '' '', CHR 0x09, CHR 0x0A, CHR 0x0B, CHR 0x0C, CHR 0x0D])"

definition trim :: "string \<Rightarrow> string" where
  "trim s = rev (dropWhile isSpace (rev (dropWhile isSpace s)))"

text \<open>
  Modelled from the spec: the character cursor \<^verbatim>\<open>require('stringStream')\<close> (spec
  section 6). The cursor is a string with a position \<^verbatim>\<open>pos\<close> and a mark
  \<^verbatim>\<open>start\<close>; the functions below work on the characters from \<^verbatim>\<open>pos\<close> on and
  return what was passed over (the \<^verbatim>\<open>current()\<close> of a mark set just before) together
  with what is left.

  \<^verbatim>\<open>skipToPair(open, close)\<close>: with the cursor on \<open>open\<close>, moves past the matching
  \<open>close\<close>, counting nested pairs of the same kind; \<open>None\<close> is the result
  \<^verbatim>\<open>false\<close>, where the cursor stays. \<^verbatim>\<open>eatWhile(p)\<close> takes the longest run of
  characters that satisfy \<open>p\<close>; its result \<^verbatim>\<open>true\<close> is a non-empty run.
  \<^verbatim>\<open>eatSpace()\<close> is \<open>dropWhile isSpace\<close>.
\<close>

fun skip_loop :: "char \<Rightarrow> char \<Rightarrow> int \<Rightarrow> string \<Rightarrow> (string \<times> string) option" where
  "skip_loop opn cls braceCount [] = None"
| "skip_loop opn cls braceCount (ch # cs) =
     (if ch = opn then
        map_option (\<lambda>(span, rest). (ch # span, rest)) (skip_loop opn cls (braceCount + 1) cs)
      else if ch = cls then
        (if braceCount - 1 < 1 then Some ([ch], cs)
         else map_option (\<lambda>(span, rest). (ch # span, rest)) (skip_loop opn cls (braceCount - 1) cs))
      else map_option (\<lambda>(span, rest). (ch # span, rest)) (skip_loop opn cls braceCount cs))"

definition skipToPair :: "char \<Rightarrow> char \<Rightarrow> string \<Rightarrow> (string \<times> string) option" where
  "skipToPair opn cls cs = skip_loop opn cls 0 cs"

definition eatWhile :: "(char \<Rightarrow> bool) \<Rightarrow> string \<Rightarrow> string \<times> string" where
  "eatWhile p cs = (takeWhile p cs, dropWhile p cs)"

text \<open>
  \<^verbatim>\<open>String.prototype.substring(a, b)\<close> clamps both arguments to the string and swaps
  them when the first is the larger; \<^verbatim>\<open>stripped\<close> is the module's function of that
  name.
\<close>

definition substring :: "string \<Rightarrow> int \<Rightarrow> int \<Rightarrow> string" where
  "substring s a b =
     (let n = int (length s);
          a' = max 0 (min a n); b' = max 0 (min b n);
          lo = min a' b'; hi = max a' b'
      in take (nat (hi - lo)) (drop (nat lo) s))"

definition stripped :: "string \<Rightarrow> string" where
  "stripped str = substring str 1 (int (length str) - 1)"

lemma dropWhile_length_le: "length (dropWhile p xs) \<le> length xs"
  by (induction xs) auto

lemma eatWhile_length_less:
  "(w, r) = eatWhile p cs \<Longrightarrow> w \<noteq> [] \<Longrightarrow> length r < length cs"
proof (cases cs)
  case Nil
  assume "(w, r) = eatWhile p cs" "w \<noteq> []"
  then show ?thesis using Nil by (simp add: eatWhile_def)
next
  case (Cons x xs)
  assume a: "(w, r) = eatWhile p cs" and ne: "w \<noteq> []"
  then have "p x" using Cons by (auto simp: eatWhile_def split: if_splits)
  then have "r = dropWhile p xs" using a Cons by (simp add: eatWhile_def)
  then show ?thesis using Cons dropWhile_length_le [of p xs] by simp
qed

lemma eatWhile_length_le: "(w, r) = eatWhile p cs \<Longrightarrow> length r \<le> length cs"
  by (simp add: eatWhile_def dropWhile_length_le)

lemma dropWhile_length_less:
  "length r < n \<Longrightarrow> length (dropWhile p r) < n"
  using dropWhile_length_le [of p r] by simp

lemma skip_loop_length:
  "skip_loop opn cls bc cs = Some (span, rest) \<Longrightarrow> length span + length rest = length cs \<and> span \<noteq> []"
  by (induction cs arbitrary: bc span) (auto split: if_splits)

lemma skipToPair_length:
  "skipToPair opn cls cs = Some (span, rest) \<Longrightarrow> length rest < length cs"
  using skip_loop_length [of opn cls 0 cs span rest] by (cases span) (auto simp: skipToPair_def)

lemma trim_length: "length (trim s) \<le> length s"
proof -
  have "length (trim s) \<le> length (rev (dropWhile isSpace s))"
    unfolding trim_def using dropWhile_length_le [of isSpace "rev (dropWhile isSpace s)"] by simp
  also have "\<dots> \<le> length s" using dropWhile_length_le [of isSpace s] by simp
  finally show ?thesis .
qed

lemma substring_length: "length (substring s a b) \<le> length s"
proof -
  have "length (take k (drop m s)) \<le> length s" for k m by simp
  then show ?thesis unfolding substring_def Let_def by blast
qed

lemma skipToPair_span:
  assumes "skipToPair opn cls (opn # cs) = Some (span, rest)"
  shows "\<exists>span'. span = opn # span' \<and> span' \<noteq> [] \<and> length span + length rest = Suc (length cs)"
proof -
  from assms obtain span' where s: "skip_loop opn cls 1 cs = Some (span', rest)" "span = opn # span'"
    by (auto simp: skipToPair_def)
  from skip_loop_length [OF s(1)] show ?thesis using s(2) by simp
qed

lemma stripped_length:
  assumes "2 \<le> length s"
  shows "length (stripped s) = length s - 2"
  using assms by (simp add: stripped_def substring_def Let_def)

lemma stripped_span_length':
  assumes "skipToPair opn cls (opn # cs) = Some (span, rest)"
  shows "length (stripped span) < Suc (length cs)"
proof -
  from skipToPair_span [OF assms] obtain span' where
    sp: "span = opn # span'" "span' \<noteq> []" "length span + length rest = Suc (length cs)"
    by blast
  then have "2 \<le> length span" by (cases span') auto
  then have "length (stripped span) = length span - 2" by (rule stripped_length)
  then show ?thesis using sp by simp
qed

section \<open>The sub-parsers of a token\<close>

text \<open>
  The table \<^verbatim>\<open>pairs\<close>, and \<^verbatim>\<open>extractText\<close>. The loop of
  \<^verbatim>\<open>extractText\<close> calls \<^verbatim>\<open>skipToPair\<close> on a bracket and goes on without
  looking at the result: where no closing bracket follows, the cursor has not moved and
  the loop does not end. The loop carries the characters passed so far, which are the
  \<^verbatim>\<open>abbr.substring(0, stream.start)\<close> of the result. The outer \<open>option\<close> of the
  result is \<open>None\<close> for the loop that never ends, the inner one is \<^verbatim>\<open>null\<close> (or
  \<^verbatim>\<open>undefined\<close>, when the loop ends without a brace).
\<close>

definition pairs :: "char \<Rightarrow> char" where
  "pairs c = (if c = CHR ''['' then CHR '']'' else if c = CHR ''('' then CHR '')'' else CHR ''}'')"

partial_function (option) extractText_loop :: "string \<Rightarrow> string \<Rightarrow> (string \<times> string) option option" where
  "extractText_loop pre cs =
     (case cs of
        [] \<Rightarrow> Some None
      | c # rest \<Rightarrow>
          if c = CHR ''['' \<or> c = CHR ''('' then
            (case skipToPair c (pairs c) cs of
               Some (span, r) \<Rightarrow> extractText_loop (pre @ span) r
             | None \<Rightarrow> extractText_loop pre cs)
          else if c = CHR ''{'' then
            Some (Some (pre, stripped (case skipToPair CHR ''{'' CHR ''}'' cs of
                                         Some (span, r) \<Rightarrow> span | None \<Rightarrow> [])))
          else extractText_loop (pre @ [c]) rest)"

declare extractText_loop.simps [code]

definition extractText :: "string \<Rightarrow> (string \<times> string) option option" where
  "extractText abbr = (if CHR ''{'' \<notin> set abbr then Some None else extractText_loop [] abbr)"

text \<open>
  The regular expressions: \<^verbatim>\<open>\w\<close> and \<^verbatim>\<open>\d\<close>,
  \<^verbatim>\<open>reWord = /[\w\-:\$]/\<close> (tested on one character), and
  \<^verbatim>\<open>reValidName = /^[\w\-\$\:@\!]+\+?$/i\<close>: one or more name characters, then at most
  one \<open>+\<close>, then the end of the string.
\<close>

definition isWordChar :: "char \<Rightarrow> bool" where
  "isWordChar c = (let n = (of_char c :: nat) in
     (65 \<le> n \<and> n \<le> 90) \<or> (97 \<le> n \<and> n \<le> 122) \<or> (48 \<le> n \<and> n \<le> 57) \<or> c = CHR ''_'')"

definition isDigit :: "char \<Rightarrow> bool" where
  "isDigit c = (let n = (of_char c :: nat) in 48 \<le> n \<and> n \<le> 57)"

definition reWord :: "char \<Rightarrow> bool" where
  "reWord c = (isWordChar c \<or> c = CHR ''-'' \<or> c = CHR '':'' \<or> c = CHR ''$'')"

definition reValidName_char :: "char \<Rightarrow> bool" where
  "reValidName_char c = (isWordChar c \<or> c = CHR ''-'' \<or> c = CHR ''$'' \<or> c = CHR '':''
                          \<or> c = CHR ''@'' \<or> c = CHR ''!'')"

definition reValidName :: "string \<Rightarrow> bool" where
  "reValidName s =
     (let body = (if s \<noteq> [] \<and> last s = CHR ''+'' then butlast s else s)
      in body \<noteq> [] \<and> list_all reValidName_char body)"

text \<open>
  \<^verbatim>\<open>consumeQuotedValue\<close> reads up to and including the next \<open>quote\<close>; its
  \<^verbatim>\<open>continue\<close> on a backslash skips nothing, so the character after a backslash is
  read like any other. \<open>None\<close> is the result \<^verbatim>\<open>false\<close>, with the cursor at the
  end of the input.
\<close>

fun consumeQuotedValue :: "char \<Rightarrow> string \<Rightarrow> (string \<times> string) option" where
  "consumeQuotedValue quote [] = None"
| "consumeQuotedValue quote (ch # cs) =
     (if ch = quote then Some ([ch], cs)
      else map_option (\<lambda>(v, rest). (ch # v, rest)) (consumeQuotedValue quote cs))"

lemma consumeQuotedValue_length:
  "consumeQuotedValue q cs = Some (v, rest) \<Longrightarrow> length rest < length cs"
  by (induction cs arbitrary: v) (auto split: if_splits)

text \<open>
  \<^verbatim>\<open>extractAttributes\<close>. After \<open>=\<close> the source sets the mark and reads one
  character with \<^verbatim>\<open>stream.next()\<close> into \<^verbatim>\<open>quote\<close>, whatever it is. If it is a
  quote and a closing quote follows, the value is the text between them. Otherwise
  \<^verbatim>\<open>stream.eatWhile(reWord)\<close> must eat at least one more character, and the value
  runs from the mark: the character read into \<^verbatim>\<open>quote\<close> and the word after it.
  After an unclosed quote the cursor is at the end of the input, where nothing can be
  eaten.
\<close>

function extractAttributes_loop :: "attr list \<Rightarrow> string \<Rightarrow> error + attr list" where
  "extractAttributes_loop result cs =
     (if cs = [] then Inr result
      else
        let (attrName, r1) = eatWhile reWord cs in
        if attrName \<noteq> [] then
          (if r1 \<noteq> [] \<and> hd r1 = CHR ''='' then
             (case tl r1 of
                [] \<Rightarrow> Inl InvalidAttributeValue
              | quote # r3 \<Rightarrow>
                  if quote = CHR 0x22 \<or> quote = CHR 0x27 then
                    (case consumeQuotedValue quote r3 of
                       Some (v, r4) \<Rightarrow>
                         extractAttributes_loop
                           (result @ [Attr attrName
                              (substring (quote # v) 1 (int (length (quote # v)) - 1))])
                           (dropWhile isSpace r4)
                     | None \<Rightarrow> Inl InvalidAttributeValue)
                  else
                    (let (w, r5) = eatWhile reWord r3 in
                     if w \<noteq> [] then
                       extractAttributes_loop (result @ [Attr attrName (quote # w)])
                         (dropWhile isSpace r5)
                     else Inl InvalidAttributeValue))
           else extractAttributes_loop (result @ [Attr attrName []]) (dropWhile isSpace r1))
        else Inr result)"
  by pat_completeness auto
termination
proof (relation "measure (\<lambda>(result, cs). length cs)", goal_cases)
  case 1
  then show ?case by simp
next
  case (2 result cs x attrName r1 quote r3 x2 v r4)
  have "length r1 < length cs" using 2 by (auto dest: eatWhile_length_less)
  moreover have "length r3 < length r1" using 2 by (cases r1) auto
  moreover have "length r4 < length r3" using 2 by (auto dest: consumeQuotedValue_length)
  ultimately show ?case by (simp add: dropWhile_length_less)
next
  case (3 result cs x attrName r1 quote r3 x w r5)
  have "length r1 < length cs" using 3 by (auto dest: eatWhile_length_less)
  moreover have "length r3 < length r1" using 3 by (cases r1) auto
  moreover have "length r5 \<le> length r3" using 3 by (auto dest: eatWhile_length_le)
  ultimately show ?case by (simp add: dropWhile_length_less)
next
  case (4 result cs x attrName r1)
  have "length r1 < length cs" using 4 by (auto dest: eatWhile_length_less)
  then show ?case by (simp add: dropWhile_length_less)
qed

declare extractAttributes_loop.simps [simp del]

definition extractAttributes :: "string \<Rightarrow> error + attr list" where
  "extractAttributes attrSet = extractAttributes_loop [] (dropWhile isSpace (trim attrSet))"

text \<open>
  \<^verbatim>\<open>parseAttributes\<close>: \<open>nameEnd\<close> is the position of the first \<open>#\<close>, \<open>.\<close> or
  \<open>[\<close>, \<open>pos\<close> the position of the cursor.
\<close>

function parseAttributes_loop ::
  "nat option \<Rightarrow> attr list \<Rightarrow> nat \<Rightarrow> string \<Rightarrow> error + nat option \<times> attr list" where
  "parseAttributes_loop nameEnd result pos cs =
     (case cs of
        [] \<Rightarrow> Inr (nameEnd, result)
      | c # rest \<Rightarrow>
          if c = CHR ''#'' \<or> c = CHR ''.'' then
            (let nameEnd' = (if nameEnd = None then Some pos else nameEnd);
                 attrName = (if c = CHR ''#'' then ''id'' else ''class'');
                 (w, r) = eatWhile reWord rest
             in parseAttributes_loop nameEnd' (result @ [Attr attrName w])
                  (pos + 1 + length w) r)
          else if c = CHR ''['' then
            (let nameEnd' = (if nameEnd = None then Some pos else nameEnd) in
             case skipToPair CHR ''['' CHR '']'' cs of
               None \<Rightarrow> Inl InvalidAttributeSet
             | Some (span, r) \<Rightarrow>
                 (case extractAttributes (stripped span) of
                    Inl e \<Rightarrow> Inl e
                  | Inr as \<Rightarrow>
                      parseAttributes_loop nameEnd' (result @ as) (pos + length span) r))
          else parseAttributes_loop nameEnd result (pos + 1) rest)"
  by pat_completeness auto
termination
  by (relation "measure (\<lambda>(nameEnd, result, pos, cs). length cs)")
     (auto dest: eatWhile_length_le skipToPair_length simp: less_Suc_eq_le)

declare parseAttributes_loop.simps [simp del]

definition parseAttributes :: "string \<Rightarrow> error + (string \<times> attr list) option" where
  "parseAttributes abbr =
     (case parseAttributes_loop None [] 0 abbr of
        Inl e \<Rightarrow> Inl e
      | Inr (nameEnd, result) \<Rightarrow>
          if length result = 0 then Inr None
          else Inr (Some (substring abbr 0 (case nameEnd of Some k \<Rightarrow> int k | None \<Rightarrow> 0),
                          optimizeAttributes result)))"

text \<open>
  The multiplier. \<^verbatim>\<open>abbr.replace(/\*(\d+)?$/, f)\<close> replaces the leftmost match: the
  first \<open>*\<close> that only digits follow up to the end. \<open>group1\<close> is the value of the
  capture group, \<^verbatim>\<open>undefined\<close> when no digit was matched. \<^verbatim>\<open>_setRepeat\<close> takes
  \<^verbatim>\<open>parseInt(count, 10) || 1\<close>. Repeat counts are integers (the model has no
  floating point: the counts are taken to be below \<open>2^53\<close>, where JavaScript numbers are
  exact).
\<close>

fun parseInt :: "string \<Rightarrow> int" where
  "parseInt ds = foldl (\<lambda>acc c. 10 * acc + (int (of_char c) - 48)) 0 ds"

fun find_multiplier :: "string \<Rightarrow> (string \<times> string) option" where
  "find_multiplier [] = None"
| "find_multiplier (c # cs) =
     (if c = CHR ''*'' \<and> list_all isDigit cs then Some ([], cs)
      else map_option (\<lambda>(pre, ds). (c # pre, ds)) (find_multiplier cs))"

definition group1 :: "string \<Rightarrow> string option" where
  "group1 ds = (if ds = [] then None else Some ds)"

definition setRepeat :: "string option \<Rightarrow> props \<Rightarrow> props" where
  "setRepeat cnt p =
     (case cnt of
        None \<Rightarrow> p\<lparr>hasImplicitRepeat := True\<rparr>
      | Some ds \<Rightarrow>
          if ds = [] then p\<lparr>hasImplicitRepeat := True\<rparr>
          else p\<lparr>repeatCount := (if parseInt ds = 0 then 1 else parseInt ds)\<rparr>)"

text \<open>
  \<^verbatim>\<open>setAbbreviation\<close> on the fields of the node. Fields that the token does not set
  keep their value.
\<close>

definition setAbbreviation :: "string \<Rightarrow> props \<Rightarrow> (error + props) option" where
  "setAbbreviation abbr0 p0 =
     (let (abbr1, p1) = (case find_multiplier abbr0 of
                           None \<Rightarrow> (abbr0, p0)
                         | Some (pre, ds) \<Rightarrow> (pre, setRepeat (group1 ds) p0));
          p2 = p1\<lparr>raw_abbreviation := abbr1\<rparr>
      in case extractText abbr1 of
           None \<Rightarrow> None
         | Some abbrText \<Rightarrow>
             (let (abbr2, p3) = (case abbrText of
                                   None \<Rightarrow> (abbr1, p2)
                                 | Some (element, txt) \<Rightarrow> (element, p2\<lparr>p_text := txt\<rparr>))
              in case parseAttributes abbr2 of
                   Inl e \<Rightarrow> Some (Inl e)
                 | Inr abbrAttrs \<Rightarrow>
                     (let (abbr3, p4) = (case abbrAttrs of
                                           None \<Rightarrow> (abbr2, p3)
                                         | Some (element, attrs) \<Rightarrow>
                                             (element, p3\<lparr>p_attributes := attrs\<rparr>));
                          p5 = p4\<lparr>p_name := Some abbr3\<rparr>
                      in if abbr3 \<noteq> [] \<and> \<not> reValidName abbr3
                         then Some (Inl InvalidAbbreviation)
                         else Some (Inr p5))))"

section \<open>The parser\<close>

text \<open>
  \<^verbatim>\<open>isAllowedChar\<close>, and the \<^verbatim>\<open>stream.eatWhile(function(c) {...})\<close> of the default
  branch of \<^verbatim>\<open>parseAbbreviation\<close>, which reads one token: \<open>eat_token\<close> returns
  the token (\<^verbatim>\<open>stream.current()\<close>) and the rest of the input. On \<open>[\<close> or \<open>{\<close> the
  callback skips to the matching bracket, backs up one character and returns true, so
  the whole bracket goes into the token. On \<open>+\<close> it looks one character ahead and
  returns \<^verbatim>\<open>isMarker\<close>.
\<close>

definition isAllowedChar :: "char \<Rightarrow> bool" where
  "isAllowedChar ch =
     (let charCode = (of_char ch :: nat); specialChars = ''#.*:$-_!@|'' in
      (charCode > 64 \<and> charCode < 91)
      \<or> (charCode > 96 \<and> charCode < 123)
      \<or> (charCode > 47 \<and> charCode < 58)
      \<or> ch \<in> set specialChars)"

function eat_token :: "string \<Rightarrow> error + string \<times> string" where
  "eat_token [] = Inr ([], [])"
| "eat_token (c # cs) =
     (if c = CHR ''['' \<or> c = CHR ''{'' then
        (case skipToPair c (pairs c) (c # cs) of
           Some (span, rest) \<Rightarrow>
             (case eat_token rest of
                Inl e \<Rightarrow> Inl e
              | Inr (tok, rest') \<Rightarrow> Inr (span @ tok, rest'))
         | None \<Rightarrow> Inl (NoMatchingPair (pairs c)))
      else if c = CHR ''+'' then
        (let isMarker = (cs = [] \<or> hd cs \<in> set ''+>^*'') in
         if isMarker then
           (case eat_token cs of
              Inl e \<Rightarrow> Inl e
            | Inr (tok, rest') \<Rightarrow> Inr (c # tok, rest'))
         else Inr ([], c # cs))
      else if c \<noteq> CHR ''('' \<and> isAllowedChar c then
        (case eat_token cs of
           Inl e \<Rightarrow> Inl e
         | Inr (tok, rest') \<Rightarrow> Inr (c # tok, rest'))
      else Inr ([], c # cs))"
  by pat_completeness auto
termination
  by (relation "measure length") (auto dest: skipToPair_length)

lemma eat_token_length:
  "eat_token cs = Inr (tok, rest) \<Longrightarrow> length rest \<le> length cs"
proof (induction cs arbitrary: tok rest rule: eat_token.induct)
  case 1
  then show ?case by simp
next
  case (2 c cs)
  show ?case
  proof (cases "c = CHR ''['' \<or> c = CHR ''{''")
    case True
    then obtain span r where sk: "skipToPair c (pairs c) (c # cs) = Some (span, r)"
      using "2.prems" by (auto split: option.splits)
    then obtain tok' where et: "eat_token r = Inr (tok', rest)"
      using "2.prems" True by (auto split: sum.splits)
    have "length rest \<le> length r" using "2.IH"(1) [OF True sk refl et] .
    moreover have "length r < length (c # cs)" using sk by (rule skipToPair_length)
    ultimately show ?thesis by simp
  next
    case False
    note nb = this
    show ?thesis
    proof (cases "c = CHR ''+''")
      case True
      show ?thesis
      proof (cases "cs = [] \<or> hd cs \<in> set ''+>^*''")
        case True
        then obtain tok' where et: "eat_token cs = Inr (tok', rest)"
          using "2.prems" nb \<open>c = CHR ''+''\<close> by (auto simp: Let_def split: sum.splits)
        have "length rest \<le> length cs"
          using "2.IH"(2) [OF nb \<open>c = CHR ''+''\<close> refl True et] .
        then show ?thesis by simp
      next
        case False
        then show ?thesis using "2.prems" nb \<open>c = CHR ''+''\<close> by (auto simp: Let_def)
      qed
    next
      case False
      note np = this
      show ?thesis
      proof (cases "c \<noteq> CHR ''('' \<and> isAllowedChar c")
        case True
        then obtain tok' where et: "eat_token cs = Inr (tok', rest)"
          using "2.prems" nb np by (auto split: sum.splits)
        have "length rest \<le> length cs" using "2.IH"(3) [OF nb np True et] .
        then show ?thesis by simp
      next
        case False
        then show ?thesis using "2.prems" nb np by auto
      qed
    qed
  qed
qed

text \<open>
  The state of the scan: the tree under \<^verbatim>\<open>root\<close>, the node \<^verbatim>\<open>context\<close> as the
  path of child indices that leads to it from the root, and the next free address.
  \<^verbatim>\<open>context.parent\<close> is the path without its last index; the root has the empty path
  and its parent is \<^verbatim>\<open>null\<close>.
\<close>

record pstate =
  tree :: node
  context_path :: "nat list"
  next_id :: nat

fun node_at :: "nat list \<Rightarrow> node \<Rightarrow> node" where
  "node_at [] n = n"
| "node_at (i # p) n = node_at p (children n ! i)"

fun update_at :: "nat list \<Rightarrow> (node \<Rightarrow> node) \<Rightarrow> node \<Rightarrow> node" where
  "update_at [] f n = f n"
| "update_at (i # p) f (Node a pr cs) = Node a pr (cs[i := update_at p f (cs ! i)])"

definition addChild :: "node \<Rightarrow> node \<Rightarrow> node" where
  "addChild child n = Node (ident n) (props n) (children n @ [child])"

definition set_props :: "props \<Rightarrow> node \<Rightarrow> node" where
  "set_props p n = Node (ident n) p (children n)"

definition new_child :: "nat list \<Rightarrow> pstate \<Rightarrow> pstate" where
  "new_child p st =
     \<lparr> tree = update_at p (addChild (AbbreviationNode (next_id st))) (tree st),
       context_path = p @ [length (children (node_at p (tree st)))],
       next_id = Suc (next_id st) \<rparr>"

definition init_state :: "nat \<Rightarrow> pstate" where
  "init_state a = new_child [] \<lparr> tree = AbbreviationNode a, context_path = [], next_id = Suc a \<rparr>"

text \<open>
  \<^verbatim>\<open>stream.match(/^\*(\d+)?/, true)\<close>: \<open>None\<close> for no match, else the capture group;
  the match is consumed.
\<close>

definition match_multiplier :: "string \<Rightarrow> string option option \<times> string" where
  "match_multiplier cs =
     (case cs of
        [] \<Rightarrow> (None, cs)
      | c # r \<Rightarrow> if c = CHR ''*'' then (Some (group1 (takeWhile isDigit r)), dropWhile isDigit r)
                 else (None, cs))"

lemma match_multiplier_length: "(m, r) = match_multiplier cs \<Longrightarrow> length r \<le> length cs"
  using dropWhile_length_le [of isDigit "tl cs"]
  by (cases cs) (auto simp: match_multiplier_def split: if_splits)

text \<open>
  The branches of the \<^verbatim>\<open>switch\<close>. After a group, \<^verbatim>\<open>context._setRepeat\<close> is
  called when a multiplier follows, and every child of the inner root is added to
  \<^verbatim>\<open>context\<close>. The operators \<open>>\<close>, \<open>+\<close> and \<open>^\<close> add a new node under
  \<^verbatim>\<open>context\<close>, under \<^verbatim>\<open>context.parent\<close>, and under
  \<^verbatim>\<open>(parent.parent || parent)\<close> for \<^verbatim>\<open>parent = context.parent || context\<close>.
\<close>

definition group_op :: "node \<Rightarrow> string option option \<Rightarrow> pstate \<Rightarrow> pstate" where
  "group_op inner multiplier st =
     (let cp = context_path st;
          t1 = (case multiplier of
                  None \<Rightarrow> tree st
                | Some g \<Rightarrow> update_at cp (\<lambda>n. set_props (setRepeat g (props n)) n) (tree st));
          t2 = foldl (\<lambda>t child. update_at cp (addChild child) t) t1 (children inner)
      in st\<lparr>tree := t2\<rparr>)"

definition child_op :: "pstate \<Rightarrow> pstate" where
  "child_op st = new_child (context_path st) st"

definition sibling_op :: "pstate \<Rightarrow> error + pstate" where
  "sibling_op st =
     (if context_path st = [] then Inl TypeError
      else Inr (new_child (butlast (context_path st)) st))"

definition climb_op :: "pstate \<Rightarrow> pstate" where
  "climb_op st =
     (let cp = context_path st;
          parent = (if cp = [] then cp else butlast cp);
          target = (if parent = [] then parent else butlast parent)
      in new_child target st)"

text \<open>
  One round of the \<^verbatim>\<open>while\<close> loop: the \<^verbatim>\<open>switch\<close> on the next character.
  \<open>parseInner\<close> is the recursive call of \<^verbatim>\<open>parseAbbreviation\<close> on the inside of
  a group; it takes and returns the next free address.
\<close>

definition scan_step ::
  "(string \<Rightarrow> nat \<Rightarrow> (error + node \<times> nat) option) \<Rightarrow> pstate \<Rightarrow> string
     \<Rightarrow> (error + pstate \<times> string) option" where
  "scan_step parseInner st input =
     (case input of
        [] \<Rightarrow> Some (Inr (st, []))
      | ch # cs \<Rightarrow>
          if ch = CHR ''('' then
            (case skipToPair CHR ''('' CHR '')'' input of
               None \<Rightarrow> Some (Inl (NoMatchingPair CHR '')''))
             | Some (span, rest) \<Rightarrow>
                 (case parseInner (stripped span) (next_id st) of
                    None \<Rightarrow> None
                  | Some (Inl e) \<Rightarrow> Some (Inl e)
                  | Some (Inr (inner, a)) \<Rightarrow>
                      (let (multiplier, rest') = match_multiplier rest
                       in Some (Inr (group_op inner multiplier (st\<lparr>next_id := a\<rparr>), rest')))))
          else if ch = CHR ''>'' then Some (Inr (child_op st, cs))
          else if ch = CHR ''+'' then
            (case sibling_op st of
               Inl e \<Rightarrow> Some (Inl e)
             | Inr st' \<Rightarrow> Some (Inr (st', cs)))
          else if ch = CHR ''^'' then Some (Inr (climb_op st, cs))
          else
            (case eat_token input of
               Inl e \<Rightarrow> Some (Inl e)
             | Inr (tok, rest) \<Rightarrow>
                 (case setAbbreviation tok (props (node_at (context_path st) (tree st))) of
                    None \<Rightarrow> None
                  | Some (Inl e) \<Rightarrow> Some (Inl e)
                  | Some (Inr p) \<Rightarrow>
                      Some (Inr (st\<lparr>tree := update_at (context_path st) (set_props p) (tree st)\<rparr>,
                                 rest)))))"

lemma scan_step_cong [fundef_cong]:
  assumes "st = st'" and "input = input'"
    and "\<And>abbr a. length abbr < length input' \<Longrightarrow> f abbr a = g abbr a"
  shows "scan_step f st input = scan_step g st' input'"
proof (cases input')
  case Nil
  then show ?thesis using assms by (simp add: scan_step_def)
next
  case (Cons ch cs)
  show ?thesis
  proof (cases "ch = CHR ''(''")
    case True
    show ?thesis
    proof (cases "skipToPair CHR ''('' CHR '')'' input'")
      case None
      then show ?thesis using assms(1,2) Cons True by (simp add: scan_step_def)
    next
      case (Some sr)
      obtain span rest where sr: "sr = (span, rest)" by (cases sr)
      have "length (stripped span) < length input'"
        using stripped_span_length' [of "CHR ''(''" "CHR '')''" cs span rest] Some sr Cons True
        by simp
      then have "f (stripped span) (next_id st') = g (stripped span) (next_id st')"
        by (rule assms(3))
      then show ?thesis using assms(1,2) Cons True Some sr by (simp add: scan_step_def)
    qed
  next
    case False
    then show ?thesis using assms(1,2) Cons by (simp add: scan_step_def)
  qed
qed

lemma scan_step_length:
  assumes "scan_step f st input = Some (Inr (st', rest))"
  shows "length rest \<le> length input"
proof (cases input)
  case Nil
  then show ?thesis using assms by (simp add: scan_step_def)
next
  case (Cons ch cs)
  show ?thesis
  proof (cases "ch = CHR ''(''")
    case True
    then obtain span r where sk: "skipToPair CHR ''('' CHR '')'' input = Some (span, r)"
      using assms Cons by (auto simp: scan_step_def split: option.splits)
    then obtain m where mm: "(m, rest) = match_multiplier r"
      using assms Cons True
      by (auto simp: scan_step_def split: option.splits sum.splits prod.splits)
    have "length rest \<le> length r" using mm by (rule match_multiplier_length)
    moreover have "length r < length input" using sk by (rule skipToPair_length)
    ultimately show ?thesis by simp
  next
    case False
    note no = this
    show ?thesis
    proof (cases "ch = CHR ''>'' \<or> ch = CHR ''+'' \<or> ch = CHR ''^''")
      case True
      then have "rest = cs"
        using assms Cons no by (auto simp: scan_step_def split: sum.splits)
      then show ?thesis using Cons by simp
    next
      case False
      then obtain tok where "eat_token input = Inr (tok, rest)"
        using assms Cons no
        by (auto simp: scan_step_def simp del: eat_token.simps
                 split: option.splits sum.splits prod.splits)
      then show ?thesis by (rule eat_token_length)
    qed
  qed
qed

text \<open>
  \<^verbatim>\<open>parseAbbreviation\<close>: \<open>parse_loop\<close> is
  \<^verbatim>\<open>while (!stream.eol() && --loopProtector > 0)\<close> and returns the counter with the
  state; \<open>parse_result\<close> is the end of the function,
  \<^verbatim>\<open>if (loopProtector < 1) throw 'Endless loop detected'; return root\<close>. The counter
  starts at 1000 and is at least 1 whenever the loop tests it, so the natural number
  \<open>loopProtector - 1\<close> is the JavaScript value.
\<close>

definition parse_result :: "(error + nat \<times> pstate) option \<Rightarrow> (error + node \<times> nat) option" where
  "parse_result r =
     (case r of
        None \<Rightarrow> None
      | Some (Inl e) \<Rightarrow> Some (Inl e)
      | Some (Inr (loopProtector, st)) \<Rightarrow>
          if loopProtector < 1 then Some (Inl EndlessLoop)
          else Some (Inr (tree st, next_id st)))"

function parse_loop :: "nat \<Rightarrow> pstate \<Rightarrow> string \<Rightarrow> (error + nat \<times> pstate) option" where
  "parse_loop loopProtector st [] = Some (Inr (loopProtector, st))"
| "parse_loop loopProtector st (ch # cs) =
     (let lp = loopProtector - 1 in
      if \<not> lp > 0 then Some (Inr (lp, st))
      else
        (case scan_step
                (\<lambda>abbr a. parse_result (parse_loop 1000 (init_state a) (trim abbr)))
                st (ch # cs) of
           None \<Rightarrow> None
         | Some (Inl e) \<Rightarrow> Some (Inl e)
         | Some (Inr (st', rest)) \<Rightarrow> parse_loop lp st' rest))"
  by pat_completeness auto
termination
  apply (relation "(\<lambda>(lp, st, cs). length cs) <*mlex*> measure (\<lambda>(lp, st, cs). lp)")
  apply (simp add: wf_mlex)
  subgoal for loopProtector st ch cs lp abbr a
    using trim_length [of abbr] by (auto intro!: mlex_less)
  subgoal by (auto intro!: mlex_leq dest: scan_step_length)
  done

definition parseAbbreviation :: "string \<Rightarrow> nat \<Rightarrow> (error + node \<times> nat) option" where
  "parseAbbreviation abbr a = parse_result (parse_loop 1000 (init_state a) (trim abbr))"

text \<open>The loop, unfolded once, with the recursive call named.\<close>

lemma parse_loop_Cons:
  "parse_loop lp st (ch # cs) =
     (if \<not> lp - 1 > 0 then Some (Inr (lp - 1, st))
      else (case scan_step parseAbbreviation st (ch # cs) of
              None \<Rightarrow> None
            | Some (Inl e) \<Rightarrow> Some (Inl e)
            | Some (Inr (st', rest)) \<Rightarrow> parse_loop (lp - 1) st' rest))"
proof -
  have "(\<lambda>abbr a. parse_result (parse_loop 1000 (init_state a) (trim abbr))) = parseAbbreviation"
    by (intro ext) (simp add: parseAbbreviation_def)
  then show ?thesis by (simp only: parse_loop.simps(2) Let_def)
qed

declare parse_loop.simps(2) [simp del]

section \<open>The unroll pass\<close>

text \<open>
  \<^verbatim>\<open>clone\<close> allocates a new node, copies the six scalar fields, the attributes
  (each attribute object copied) and the dictionary, and clones the children in order.
  The new node gets the next free address, then its children theirs.
\<close>

fun clone :: "node \<Rightarrow> nat \<Rightarrow> node \<times> nat"
  and clone_children :: "node list \<Rightarrow> nat \<Rightarrow> node list \<times> nat" where
  "clone (Node a p cs) s =
     (let (cs', s') = clone_children cs (Suc s)
      in (Node s p cs', s'))"
| "clone_children [] s = ([], s)"
| "clone_children (c # cs) s =
     (let (c', s1) = clone c s;
          (cs', s2) = clone_children cs s1
      in (c' # cs', s2))"

text \<open>
  \<^verbatim>\<open>updateProperty(name, value)\<close> sets a field of the node and of every descendant;
  the assignment \<^verbatim>\<open>this[name] = value\<close> is the function \<open>upd\<close>. The module calls
  it for \<^verbatim>\<open>'counter'\<close> only.
\<close>

fun updateProperty :: "(props \<Rightarrow> props) \<Rightarrow> node \<Rightarrow> node" where
  "updateProperty upd (Node a p cs) = Node a (upd p) (map (updateProperty upd) cs)"

definition set_counter :: "int \<Rightarrow> props \<Rightarrow> props" where
  "set_counter v p = p\<lparr>counter := v\<rparr>"

text \<open>
  \<^verbatim>\<open>addChild(child, position)\<close> on the children of the parent:
  \<^verbatim>\<open>children.splice(position, 0, child)\<close>. The inner loop of \<^verbatim>\<open>unroll\<close> is
  \<^verbatim>\<open>while (--j > 0) child.parent.addChild(child.clone(), i + 1).updateProperty('counter', j + 1)\<close>,
  where \<^verbatim>\<open>child.parent\<close> is the node whose children the outer loop walks.
\<close>

definition insert_child :: "node \<Rightarrow> nat \<Rightarrow> node list \<Rightarrow> node list" where
  "insert_child child position cs = take position cs @ [child] @ drop position cs"

function clones_while :: "int \<Rightarrow> node \<Rightarrow> nat \<Rightarrow> node list \<Rightarrow> nat \<Rightarrow> node list \<times> nat" where
  "clones_while j child i cs s =
     (let j' = j - 1 in
      if j' > 0 then
        (let (c, s') = clone child s
         in clones_while j' child i
              (insert_child (updateProperty (set_counter (j' + 1)) c) (i + 1) cs) s')
      else (cs, s))"
  by pat_completeness auto
termination
  by (relation "measure (\<lambda>(j, child, i, cs, s). nat j)") auto

text \<open>
  The outer loop \<^verbatim>\<open>for (i = length - 1; i >= 0; i--)\<close>; the first argument is
  \<open>i + 1\<close>.
\<close>

fun unroll_for :: "nat \<Rightarrow> node list \<Rightarrow> nat \<Rightarrow> node list \<times> nat" where
  "unroll_for 0 cs s = (cs, s)"
| "unroll_for (Suc i) cs s =
     (let child = cs ! i in
      if isRepeating child then
        (let j = repeatCount (props child);
             child1 = set_props ((props child)\<lparr>repeatCount := 1\<rparr>) child;
             child2 = updateProperty (set_counter 1) child1;
             (cs', s') = clones_while j child2 i (cs[i := child2]) s
         in unroll_for i cs' s')
      else unroll_for i cs s)"

text \<open>
  \<^verbatim>\<open>unroll\<close> ends with \<^verbatim>\<open>_.each(node.children, unroll)\<close>, over the clones
  too. The recursion ends because no child of the list the loop leaves is higher than a
  child of the list it started from.
\<close>

fun height :: "node \<Rightarrow> nat" where
  "height (Node a p cs) = Suc (foldr max (map height cs) 0)"

definition heights :: "node list \<Rightarrow> nat" where
  "heights cs = foldr max (map height cs) 0"

lemma heights_simps [simp]:
  "heights [] = 0" "heights (c # cs) = max (height c) (heights cs)"
  by (simp_all add: heights_def)

lemma height_Node [simp]: "height (Node a p cs) = Suc (heights cs)"
  by (simp add: heights_def)

declare height.simps [simp del]

lemma heights_le_iff: "heights cs \<le> h \<longleftrightarrow> (\<forall>c \<in> set cs. height c \<le> h)"
  by (induction cs) auto

lemma heights_append [simp]: "heights (xs @ ys) = max (heights xs) (heights ys)"
  by (induction xs) auto

lemma height_clone:
  "height (fst (clone n s)) = height n"
  "heights (fst (clone_children cs s)) = heights cs"
  by (induction n s and cs s rule: clone_clone_children.induct)
     (auto split: prod.splits)

lemma height_updateProperty: "height (updateProperty upd n) = height n"
proof (induction upd n rule: updateProperty.induct)
  case (1 upd a p cs)
  have "heights (map (updateProperty upd) cs) = heights cs"
    using 1 by (induction cs) auto
  then show ?case by simp
qed

lemma heights_insert_child:
  "heights (insert_child c k cs) = max (height c) (heights cs)"
proof -
  have "max (heights (take k cs)) (heights (drop k cs)) = heights cs"
    by (metis append_take_drop_id heights_append)
  then show ?thesis by (simp add: insert_child_def max.left_commute)
qed

lemma heights_clones_while:
  "height child \<le> h \<Longrightarrow> heights cs \<le> h \<Longrightarrow> heights (fst (clones_while j child i cs s)) \<le> h"
proof (induction j child i cs s rule: clones_while.induct)
  case (1 j child i cs s)
  show ?case
  proof (cases "j - 1 > 0")
    case True
    obtain c s' where cl: "clone child s = (c, s')" by (cases "clone child s")
    have hc: "height c = height child" using height_clone(1) [of child s] cl by simp
    let ?cs' = "insert_child (updateProperty (set_counter (j - 1 + 1)) c) (i + 1) cs"
    have "heights ?cs' \<le> h"
      using "1.prems" hc by (simp add: heights_insert_child height_updateProperty)
    from "1.IH" [OF refl True refl cl [symmetric] "1.prems"(1) this]
    show ?thesis using True cl by (simp add: Let_def)
  next
    case False
    then show ?thesis using "1.prems" by (simp add: Let_def)
  qed
qed

lemma heights_update: "height c \<le> h \<Longrightarrow> heights cs \<le> h \<Longrightarrow> heights (cs[i := c]) \<le> h"
  by (auto simp: heights_le_iff dest!: set_update_subset_insert [THEN subsetD])

lemma height_set_props: "height (set_props p n) = height n"
  by (cases n) (simp add: set_props_def)

lemma heights_nth: "i < length cs \<Longrightarrow> height (cs ! i) \<le> heights cs"
  using heights_le_iff [of cs "heights cs"] by simp

lemma clones_while_length:
  "length cs \<le> length (fst (clones_while j child i cs s))"
proof (induction j child i cs s rule: clones_while.induct)
  case (1 j child i cs s)
  show ?case
  proof (cases "j - 1 > 0")
    case True
    obtain c s' where cl: "clone child s = (c, s')" by (cases "clone child s")
    from "1.IH" [OF refl True refl cl [symmetric]]
    show ?thesis using True cl by (simp add: Let_def insert_child_def)
  next
    case False
    then show ?thesis by (simp add: Let_def)
  qed
qed

lemma heights_unroll_for:
  "k \<le> length cs \<Longrightarrow> heights cs \<le> h \<Longrightarrow> heights (fst (unroll_for k cs s)) \<le> h"
proof (induction k arbitrary: cs s)
  case 0
  then show ?case by simp
next
  case (Suc k)
  let ?child = "cs ! k"
  have kl: "k < length cs" using Suc.prems(1) by simp
  show ?case
  proof (cases "isRepeating ?child")
    case True
    let ?child2 = "updateProperty (set_counter 1)
                     (set_props ((props ?child)\<lparr>repeatCount := 1\<rparr>) ?child)"
    obtain cs' s' where cw:
      "clones_while (repeatCount (props ?child)) ?child2 k (cs[k := ?child2]) s = (cs', s')"
      by (cases "clones_while (repeatCount (props ?child)) ?child2 k (cs[k := ?child2]) s")
    have hc: "height ?child2 \<le> h"
      using heights_nth [OF kl] Suc.prems(2)
      by (simp add: height_updateProperty height_set_props)
    have hu: "heights (cs[k := ?child2]) \<le> h" using hc Suc.prems(2) by (rule heights_update)
    have h': "heights cs' \<le> h"
      using heights_clones_while [OF hc hu, of "repeatCount (props ?child)" k s] cw by simp
    have l': "k \<le> length cs'"
      using clones_while_length [of "cs[k := ?child2]" "repeatCount (props ?child)" ?child2 k s]
            cw kl by simp
    show ?thesis using True cw Suc.IH [OF l' h'] by (simp add: Let_def)
  next
    case False
    then show ?thesis using Suc.IH [of cs s] Suc.prems kl by simp
  qed
qed

function unroll :: "node \<Rightarrow> nat \<Rightarrow> node \<times> nat"
  and unroll_each :: "node list \<Rightarrow> nat \<Rightarrow> node list \<times> nat" where
  "unroll (Node a p cs) s =
     (let (cs1, s1) = unroll_for (length cs) cs s;
          (cs2, s2) = unroll_each cs1 s1
      in (Node a p cs2, s2))"
| "unroll_each [] s = ([], s)"
| "unroll_each (c # cs) s =
     (let (c', s1) = unroll c s;
          (cs', s2) = unroll_each cs s1
      in (c' # cs', s2))"
  by pat_completeness auto
termination
  apply (relation "(\<lambda>x. case x of Inl (n, s) \<Rightarrow> 2 * height n | Inr (cs, s) \<Rightarrow> 2 * heights cs + 1)
                   <*mlex*> measure (\<lambda>x. case x of Inl (n, s) \<Rightarrow> 0 | Inr (cs, s) \<Rightarrow> length cs)")
  apply (simp add: wf_mlex)
  subgoal for a p cs s x cs1 s1
    using heights_unroll_for [of "length cs" cs "heights cs" s]
    by (auto intro!: mlex_less split: prod.splits)
  subgoal by (auto intro!: mlex_less)
  subgoal by (auto intro!: mlex_leq)
  done

section \<open>The pipeline\<close>

text \<open>
  \<^verbatim>\<open>parse(abbr, options)\<close>. The registries \<^verbatim>\<open>preprocessors\<close> and
  \<^verbatim>\<open>postprocessors\<close> are module state; a processor changes the tree it is given.
  They are empty when the module is loaded, which is \<open>parse\<close>. Addresses start at 0.
\<close>

definition parse_with ::
  "(node \<Rightarrow> node) list \<Rightarrow> (node \<Rightarrow> node) list \<Rightarrow> string \<Rightarrow> (error + node) option" where
  "parse_with preprocessors postprocessors abbr =
     (case parseAbbreviation abbr 0 of
        None \<Rightarrow> None
      | Some (Inl e) \<Rightarrow> Some (Inl e)
      | Some (Inr (tree0, s)) \<Rightarrow>
          (let tree1 = foldl (\<lambda>t fn. fn t) tree0 preprocessors;
               tree2 = squash (fst (unroll tree1 s));
               tree3 = foldl (\<lambda>t fn. fn t) tree2 postprocessors
           in Some (Inr tree3)))"

definition parse :: "string \<Rightarrow> (error + node) option" where
  "parse abbr = parse_with [] [] abbr"

section \<open>The attribute accessor\<close>

lemma find_attr_name: "find (\<lambda>a. attr_name a = nm) xs = Some a \<Longrightarrow> attr_name a = nm"
  by (induction xs) (auto split: if_splits)

text \<open>
  Claim C10. For every node, \<^verbatim>\<open>attribute(name)\<close> returns the queried name itself when
  \<^verbatim>\<open>attributeList()\<close> holds an attribute of that name, and \<^verbatim>\<open>undefined\<close> when it
  holds none. The result is a function of the names in the list alone: the value of the
  attribute does not enter it.
\<close>

theorem attribute_returns_name:
  "attribute n nm = (if nm \<in> set (map attr_name (attributeList n)) then Some nm else None)"
proof (cases "find (\<lambda>a. attr_name a = nm) (attributeList n)")
  case None
  then have "nm \<notin> set (map attr_name (attributeList n))" by (auto simp: find_None_iff)
  then show ?thesis using None by (simp add: attribute_def)
next
  case (Some a)
  then have "attr_name a = nm" by (rule find_attr_name)
  moreover have "a \<in> set (attributeList n)" using Some by (auto simp: find_Some_iff)
  ultimately show ?thesis using Some by (auto simp: attribute_def)
qed

section \<open>Squash and nested groups\<close>

text \<open>An element node with no text and no attributes, as the parser builds it.\<close>

definition element :: "nat \<Rightarrow> string \<Rightarrow> int \<Rightarrow> node list \<Rightarrow> node" where
  "element a nm c cs =
     Node a (new_props\<lparr>raw_abbreviation := nm, counter := c, p_name := Some nm\<rparr>) cs"

text \<open>
  Where squash does what its comment says. A tree is \<open>group_free\<close> when no node below
  its root is a group, and \<open>unnested\<close> when no group is the child of a group below its
  root. On an unnested tree squash leaves no group and a second pass changes nothing;
  the two theorems after these lemmas are about the trees that are not unnested.
\<close>

fun group_free :: "node \<Rightarrow> bool" where
  "group_free (Node a p cs) = list_all (\<lambda>c. \<not> isGroup c \<and> group_free c) cs"

fun unnested :: "node \<Rightarrow> bool" where
  "unnested (Node a p cs) =
     list_all (\<lambda>c. (isGroup c \<longrightarrow> list_all (\<lambda>g. \<not> isGroup g) (children c)) \<and> unnested c) cs"

lemma isGroup_squash: "isGroup (squash t) = isGroup t"
  by (cases t) (simp add: isGroup_def)

lemma flatten_group_free:
  "list_all (\<lambda>c. \<not> isGroup c) cs \<Longrightarrow> concat (map flatten_child cs) = cs"
  by (induction cs) (simp_all add: flatten_child_def)

lemma squash_group_free: "group_free t \<Longrightarrow> squash t = t"
proof (induction t rule: squash.induct)
  case (1 a p cs)
  then have gf: "list_all (\<lambda>c. \<not> isGroup c \<and> group_free c) cs" by simp
  then have "list_all (\<lambda>c. \<not> isGroup c) cs" by (simp add: list_all_iff)
  then have f: "squash_for (length cs) cs = cs"
    by (simp add: squash_for_all flatten_group_free)
  have "map squash cs = cs"
  proof (rule map_idI)
    fix x assume x: "x \<in> set cs"
    then have "group_free x" using gf by (simp add: list_all_iff)
    then show "squash x = x" using "1.IH" [of x] x f by simp
  qed
  then show ?case using f by simp
qed

lemma unnested_children: "unnested t \<Longrightarrow> c \<in> set (children t) \<Longrightarrow> unnested c"
  by (cases t) (simp add: list_all_iff)

lemma squash_unnested: "unnested t \<Longrightarrow> group_free (squash t)"
proof (induction t rule: squash.induct)
  case (1 a p cs)
  have un: "list_all (\<lambda>c. (isGroup c \<longrightarrow> list_all (\<lambda>g. \<not> isGroup g) (children c)) \<and> unnested c) cs"
    using "1.prems" by simp
  have "\<not> isGroup (squash x) \<and> group_free (squash x)"
    if x: "x \<in> set (squash_for (length cs) cs)" for x
  proof -
    from x obtain c where c: "c \<in> set cs" and xc: "x \<in> set (flatten_child c)"
      by (auto simp: squash_for_all)
    have uc: "unnested c" and gc: "isGroup c \<longrightarrow> list_all (\<lambda>g. \<not> isGroup g) (children c)"
      using un c by (simp_all add: list_all_iff)
    have "\<not> isGroup x \<and> unnested x"
    proof (cases "isGroup c")
      case True
      then have "x \<in> set (children c)" using xc by (simp add: flatten_child_def)
      then show ?thesis using gc True uc unnested_children by (auto simp: list_all_iff)
    next
      case False
      then show ?thesis using xc uc by (simp add: flatten_child_def)
    qed
    then show ?thesis using "1.IH" [OF x] by (simp add: isGroup_squash)
  qed
  then show ?case by (simp add: list_all_iff)
qed

lemma squash_idem_unnested: "unnested t \<Longrightarrow> squash (squash t) = squash t"
  by (rule squash_group_free) (rule squash_unnested)

text \<open>
  Claim C3. After squash, no group node is left in the tree and every node that is left
  has a raw abbreviation or a descendant. The code does not do this: the loop of
  \<^verbatim>\<open>squash\<close> walks from the last child to the first and never looks again at the
  nodes that a \<^verbatim>\<open>replace\<close> has just put into the list, and the recursion looks at
  their children only. For \<^verbatim>\<open>((a))\<close> the inner group node (address 3) stays in the
  tree that \<^verbatim>\<open>parse\<close> returns, above the node of \<open>a\<close>; for \<^verbatim>\<open>()\<close> an empty node
  stays, with no abbreviation and no child.
\<close>

theorem squash_keeps_nested_group:
  "parse ''((a))'' = Some (Inr (Node 0 new_props [Node 3 new_props [element 5 ''a'' 1 []]]))
   \<and> isGroup (Node 3 new_props [element 5 ''a'' 1 []])
   \<and> parse ''()'' = Some (Inr (Node 0 new_props [Node 3 new_props []]))
   \<and> isEmpty (Node 3 new_props [])"
  by code_simp

text \<open>
  Claim C4. Squash is idempotent. On the tree parsed from \<^verbatim>\<open>((a))\<close> (which unroll
  leaves as it is) it is not: the first pass leaves the inner group node in place, the
  second pass removes it.
\<close>

theorem squash_twice_differs:
  "parseAbbreviation ''((a))'' 0 =
     Some (Inr (Node 0 new_props [Node 1 new_props [Node 3 new_props [element 5 ''a'' 1 []]]], 6))
   \<and> squash (fst (unroll (Node 0 new_props [Node 1 new_props [Node 3 new_props [element 5 ''a'' 1 []]]]) 6))
       = Node 0 new_props [Node 3 new_props [element 5 ''a'' 1 []]]
   \<and> squash (Node 0 new_props [Node 3 new_props [element 5 ''a'' 1 []]])
       = Node 0 new_props [element 5 ''a'' 1 []]
   \<and> Node 0 new_props [element 5 ''a'' 1 []] \<noteq> Node 0 new_props [Node 3 new_props [element 5 ''a'' 1 []]]"
  by code_simp

section \<open>Attribute sets\<close>

text \<open>
  Claim C6, as stated: parsing \<^verbatim>\<open>a[href=# title="Hi"]\<close> succeeds. It does not: after
  \<open>=\<close> the character \<open>#\<close> is read into \<^verbatim>\<open>quote\<close>, it is no quote, and no word
  character follows it, so \<^verbatim>\<open>extractAttributes\<close> throws
  \<^verbatim>\<open>'Invalid attribute value'\<close>.
\<close>

theorem parse_href_hash_fails:
  "parse ''a[href=# title=\"Hi\"]'' = Some (Inl InvalidAttributeValue)"
  by code_simp

text \<open>
  Claim C6, amended: with the value quoted, \<^verbatim>\<open>a[href="#" title="Hi"]\<close> parses to one
  node with the name \<open>a\<close> and the attributes \<open>href = #\<close> and \<open>title = Hi\<close>, in that
  order; and \<^verbatim>\<open>a[href=top title='Hi']\<close>, with the bare word \<open>top\<close> and a string in
  single quotes, parses to one node with the attributes \<open>href = top\<close> and
  \<open>title = Hi\<close>.
\<close>

theorem parse_quoted_attributes:
  "parse ''a[href=\"#\" title=\"Hi\"]'' =
     Some (Inr (Node 0 new_props
       [Node 1 (new_props\<lparr>raw_abbreviation := ''a[href=\"#\" title=\"Hi\"]'', p_name := Some ''a'',
                  p_attributes := [Attr ''href'' ''#'', Attr ''title'' ''Hi'']\<rparr>) []]))
   \<and> parse ''a[href=top title='Hi']'' =
     Some (Inr (Node 0 new_props
       [Node 1 (new_props\<lparr>raw_abbreviation := ''a[href=top title='Hi']'', p_name := Some ''a'',
                  p_attributes := [Attr ''href'' ''top'', Attr ''title'' ''Hi'']\<rparr>) []]))"
  by code_simp

section \<open>Blank input\<close>

lemma trim_blank: "list_all isSpace s \<Longrightarrow> trim s = []"
proof -
  assume "list_all isSpace s"
  then have d: "dropWhile isSpace s = []" by (induction s) auto
  show ?thesis unfolding trim_def d by simp
qed

text \<open>
  Claim C9. On the empty string and on a string of whitespace only, \<^verbatim>\<open>parse\<close> throws
  nothing and returns a root without children: the loop does not run, and squash
  replaces the one context node, which is a group, by its children, of which there are
  none.
\<close>

theorem parse_blank:
  "list_all isSpace s \<Longrightarrow> parse s = Some (Inr (Node 0 new_props []))"
proof -
  assume "list_all isSpace s"
  then have t: "trim s = []" by (rule trim_blank)
  have "parse [] = Some (Inr (Node 0 new_props []))" by code_simp
  moreover have "trim [] = []" by (simp add: trim_def)
  then have "parseAbbreviation s 0 = parseAbbreviation [] 0"
    using t by (simp only: parseAbbreviation_def)
  then have "parse s = parse []"
    by (simp only: parse_def parse_with_def)
  ultimately show ?thesis by simp
qed

text \<open>Claim C9, witness: a string of two blanks, and the empty string.\<close>

theorem parse_blank_witness:
  "list_all isSpace ''  '' \<and> parse ''  '' = Some (Inr (Node 0 new_props []))
   \<and> parse [] = Some (Inr (Node 0 new_props []))"
  using parse_blank [of "''  ''"] parse_blank [of "[]"] by (simp add: isSpace_def)

section \<open>The character \<open>+\<close> in the scan\<close>

lemma isAllowedChar_not_special:
  "isAllowedChar c \<Longrightarrow>
     c \<noteq> CHR ''['' \<and> c \<noteq> CHR ''{'' \<and> c \<noteq> CHR ''+'' \<and> c \<noteq> CHR ''(''
     \<and> c \<noteq> CHR ''>'' \<and> c \<noteq> CHR ''^''"
  by (auto simp: isAllowedChar_def)

lemma eat_token_allowed:
  "list_all isAllowedChar w \<Longrightarrow>
     eat_token (w @ r) =
       (case eat_token r of Inl e \<Rightarrow> Inl e | Inr (t, r') \<Rightarrow> Inr (w @ t, r'))"
proof (induction w)
  case Nil
  then show ?case by (simp split: sum.splits)
next
  case (Cons c w)
  then have c: "isAllowedChar c" and w: "list_all isAllowedChar w" by simp_all
  note ns = isAllowedChar_not_special [OF c]
  have "eat_token ((c # w) @ r) =
          (case eat_token (w @ r) of Inl e \<Rightarrow> Inl e | Inr (t, r') \<Rightarrow> Inr (c # t, r'))"
    using ns c by simp
  then show ?case using Cons.IH [OF w] by (simp split: sum.splits)
qed

text \<open>
  Claim C5, as stated: a \<open>+\<close> is taken as the sibling operator exactly when the end of
  the input or another operator character follows it, and is kept in the token
  otherwise. The code does the opposite. In \<^verbatim>\<open>a+b\<close> the \<open>+\<close> is followed by a name
  character and is the operator: the tree has the siblings \<open>a\<close> and \<open>b\<close>. In
  \<^verbatim>\<open>a+\<close> the \<open>+\<close> is followed by the end of the input and stays in the token: the
  tree has the one node \<^verbatim>\<open>a+\<close>.
\<close>

theorem plus_before_name_is_operator:
  "parseAbbreviation ''a+b'' 0 =
     Some (Inr (Node 0 new_props [element 1 ''a'' 1 [], element 2 ''b'' 1 []], 3))
   \<and> parseAbbreviation ''a+'' 0 =
     Some (Inr (Node 0 new_props [element 1 ''a+'' 1 []], 2))"
  by code_simp

text \<open>
  Claim C5, amended. While a token is read (\<open>w\<close> is the text of allowed characters read
  so far), a \<open>+\<close> is kept as part of the token exactly when it is followed by the end
  of the input or by one of the characters \<open>+\<close>, \<open>>\<close>, \<open>^\<close>, \<open>*\<close>; otherwise the
  token ends before it. A \<open>+\<close> that the loop finds at the start of a round is the
  sibling operator, whatever follows it.
\<close>

theorem plus_marker_rule:
  "list_all isAllowedChar w \<longrightarrow>
     eat_token (w @ CHR ''+'' # r) =
       (if r = [] \<or> hd r \<in> set ''+>^*''
        then (case eat_token r of
                Inl e \<Rightarrow> Inl e
              | Inr (t, r') \<Rightarrow> Inr (w @ CHR ''+'' # t, r'))
        else Inr (w, CHR ''+'' # r))
     \<and> scan_step f st (CHR ''+'' # r) =
         (case sibling_op st of
            Inl e \<Rightarrow> Some (Inl e)
          | Inr st' \<Rightarrow> Some (Inr (st', r)))"
proof
  assume w: "list_all isAllowedChar w"
  have "eat_token (w @ CHR ''+'' # r) =
       (if r = [] \<or> hd r \<in> set ''+>^*''
        then (case eat_token r of
                Inl e \<Rightarrow> Inl e
              | Inr (t, r') \<Rightarrow> Inr (w @ CHR ''+'' # t, r'))
        else Inr (w, CHR ''+'' # r))"
    using w by (simp add: eat_token_allowed Let_def split: sum.splits)
  moreover have "scan_step f st (CHR ''+'' # r) =
         (case sibling_op st of
            Inl e \<Rightarrow> Some (Inl e)
          | Inr st' \<Rightarrow> Some (Inr (st', r)))"
    by (simp add: scan_step_def)
  ultimately show "eat_token (w @ CHR ''+'' # r) =
       (if r = [] \<or> hd r \<in> set ''+>^*''
        then (case eat_token r of
                Inl e \<Rightarrow> Inl e
              | Inr (t, r') \<Rightarrow> Inr (w @ CHR ''+'' # t, r'))
        else Inr (w, CHR ''+'' # r))
     \<and> scan_step f st (CHR ''+'' # r) =
         (case sibling_op st of
            Inl e \<Rightarrow> Some (Inl e)
          | Inr st' \<Rightarrow> Some (Inr (st', r)))" by simp
qed

text \<open>
  Claim C5, witness: the token \<open>ul\<close> before \<^verbatim>\<open>+li\<close>, before \<open>+\<close> at the end of the
  input and before \<^verbatim>\<open>+>li\<close>, and the operator at the start of \<^verbatim>\<open>+li\<close>.
\<close>

theorem plus_marker_rule_witness:
  "list_all isAllowedChar ''ul''
   \<and> eat_token ''ul+li'' = Inr (''ul'', ''+li'')
   \<and> eat_token ''ul+'' = Inr (''ul+'', [])
   \<and> eat_token ''ul+>li'' = Inr (''ul+'', ''>li'')
   \<and> scan_step parseAbbreviation (init_state 0) ''+li'' =
        Some (Inr (new_child [] (init_state 0), ''li''))"
proof -
  have a: "list_all isAllowedChar ''ul''" by code_simp
  have b: "sibling_op (init_state 0) = Inr (new_child [] (init_state 0))" by code_simp
  have e: "eat_token ''>li'' = Inr ([], ''>li'')" by code_simp
  have "eat_token (''ul'' @ CHR ''+'' # ''li'') = Inr (''ul'', CHR ''+'' # ''li'')
        \<and> scan_step parseAbbreviation (init_state 0) (CHR ''+'' # ''li'')
            = Some (Inr (new_child [] (init_state 0), ''li''))"
    using a b plus_marker_rule [of "''ul''" "''li''" parseAbbreviation "init_state 0"]
    by (simp del: eat_token.simps)
  moreover have "eat_token (''ul'' @ CHR ''+'' # []) = Inr (''ul'' @ ''+'', [])"
    using a plus_marker_rule [of "''ul''" "[]" parseAbbreviation "init_state 0"]
    by (simp del: eat_token.simps add: eat_token.simps(1))
  moreover have "eat_token (''ul'' @ CHR ''+'' # ''>li'') = Inr (''ul'' @ ''+'', ''>li'')"
    using a e plus_marker_rule [of "''ul''" "''>li''" parseAbbreviation "init_state 0"]
    by (simp del: eat_token.simps)
  ultimately show ?thesis using a by (simp del: eat_token.simps)
qed

section \<open>Characters that the scan does not accept\<close>

text \<open>
  A character is \<open>simple\<close> when the scan takes it into a token and no sub-parser gives it
  a meaning: the name characters and \<open>|\<close>. On a token of simple characters
  \<^verbatim>\<open>setAbbreviation\<close> finds no multiplier, no text and no attribute, and the whole
  token is the name.
\<close>

definition simple :: "char \<Rightarrow> bool" where
  "simple c = (isAllowedChar c \<and> c \<noteq> CHR ''#'' \<and> c \<noteq> CHR ''.'' \<and> c \<noteq> CHR ''*'')"



















lemma trim_id:
  assumes "s \<noteq> []" "\<not> isSpace (hd s)" "\<not> isSpace (last s)"
  shows "trim s = s"
proof -
  have "dropWhile isSpace s = s" using assms(1,2) by (cases s) auto
  moreover have "dropWhile isSpace (rev s) = rev s"
    using assms(1,3) by (cases s rule: rev_cases) auto
  ultimately show ?thesis by (simp add: trim_def)
qed





section \<open>The scan loop returns\<close>

text \<open>
  The only loop of the module that can run forever is the one of \<^verbatim>\<open>extractText\<close>,
  on a bracket that is not closed. The tokens that the scan reads have their brackets
  closed, also after the multiplier is cut off, so \<^verbatim>\<open>parseAbbreviation\<close> returns on
  every input: with a tree or with an error.
\<close>

lemma skip_loop_prefix:
  "skip_loop opn cls bc xs = Some (span, r) \<Longrightarrow> skip_loop opn cls bc (span @ ys) = Some (span, ys)"
proof (induction xs arbitrary: bc span)
  case Nil
  then show ?case by simp
next
  case (Cons x xs)
  show ?case
  proof (cases "x = cls \<and> x \<noteq> opn \<and> bc - 1 < 1")
    case True
    then show ?thesis using Cons.prems by auto
  next
    case False
    let ?bc' = "if x = opn then bc + 1 else if x = cls then bc - 1 else bc"
    from False Cons.prems obtain span' where
      s: "skip_loop opn cls ?bc' xs = Some (span', r)" "span = x # span'"
      by (auto split: if_splits)
    from Cons.IH [OF s(1)] show ?thesis using False s(2) by auto
  qed
qed

lemma skip_loop_none: "cls \<notin> set ys \<Longrightarrow> skip_loop opn cls bc ys = None"
  by (induction ys arbitrary: bc) auto

lemma skip_loop_restrict:
  "skip_loop opn cls bc (xs @ ys) = Some (span, r) \<Longrightarrow> cls \<notin> set ys \<Longrightarrow>
     \<exists>r1. skip_loop opn cls bc xs = Some (span, r1) \<and> r = r1 @ ys"
proof (induction xs arbitrary: bc span)
  case Nil
  then show ?case by (simp add: skip_loop_none)
next
  case (Cons x xs)
  show ?case
  proof (cases "x = cls \<and> x \<noteq> opn \<and> bc - 1 < 1")
    case True
    then show ?thesis using Cons.prems by auto
  next
    case False
    let ?bc' = "if x = opn then bc + 1 else if x = cls then bc - 1 else bc"
    from False Cons.prems(1) obtain span' where
      s: "skip_loop opn cls ?bc' (xs @ ys) = Some (span', r)" "span = x # span'"
      by (auto split: if_splits)
    from Cons.IH [OF s(1) Cons.prems(2)] show ?thesis using False s(2) by auto
  qed
qed

text \<open>
  \<open>brackets_closed s\<close>: every \<open>[\<close> and \<open>(\<close> that the loop of \<^verbatim>\<open>extractText\<close> meets
  in \<open>s\<close> before the first \<open>{\<close> has its closing bracket.
\<close>

function brackets_closed :: "string \<Rightarrow> bool" where
  "brackets_closed [] = True"
| "brackets_closed (c # cs) =
     (if c = CHR ''['' \<or> c = CHR ''('' then
        (case skipToPair c (pairs c) (c # cs) of
           Some (span, r) \<Rightarrow> brackets_closed r
         | None \<Rightarrow> False)
      else if c = CHR ''{'' then True
      else brackets_closed cs)"
  by pat_completeness auto
termination
  by (relation "measure length") (auto dest: skipToPair_length)

lemma extractText_loop_returns:
  "brackets_closed s \<Longrightarrow> \<exists>res. extractText_loop pre s = Some res"
proof (induction s arbitrary: pre rule: brackets_closed.induct)
  case 1
  show ?case by (subst extractText_loop.simps) simp
next
  case (2 c cs)
  show ?case
  proof (cases "c = CHR ''['' \<or> c = CHR ''(''")
    case True
    then obtain span r where sk: "skipToPair c (pairs c) (c # cs) = Some (span, r)"
      and bc: "brackets_closed r"
      using "2.prems" by (auto split: option.splits)
    from "2.IH"(1) [OF True sk refl bc, of "pre @ span"]
    show ?thesis using True sk by (subst extractText_loop.simps) auto
  next
    case False
    note nb = this
    show ?thesis
    proof (cases "c = CHR ''{''")
      case True
      then show ?thesis by (subst extractText_loop.simps) simp
    next
      case False
      then have "brackets_closed cs" using "2.prems" nb by simp
      from "2.IH"(2) [OF nb False this, of "pre @ [c]"]
      show ?thesis using nb False by (subst extractText_loop.simps) auto
    qed
  qed
qed

lemma extractText_returns: "brackets_closed s \<Longrightarrow> \<exists>res. extractText s = Some res"
  using extractText_loop_returns [of s "[]"] by (simp add: extractText_def)

lemma brackets_closed_span:
  assumes "skipToPair c cls (c # cs) = Some (span, rest)"
    and "c = CHR ''['' \<and> cls = CHR '']'' \<or> c = CHR ''{'' \<and> cls = CHR ''}''"
    and "brackets_closed t"
  shows "brackets_closed (span @ t)"
proof -
  from skipToPair_span [OF assms(1)] obtain span' where sp: "span = c # span'" by blast
  have pre: "skipToPair c cls (span @ t) = Some (span, t)"
    using assms(1) skip_loop_prefix [of c cls 0 "c # cs" span rest t]
    by (simp add: skipToPair_def)
  show ?thesis
  proof (cases "c = CHR ''[''")
    case True
    then have "pairs c = cls" using assms(2) by (auto simp: pairs_def)
    then show ?thesis using pre True assms(3) unfolding sp by simp
  next
    case False
    then have "c = CHR ''{''" using assms(2) by auto
    then show ?thesis unfolding sp by simp
  qed
qed

lemma eat_token_brackets_closed:
  "eat_token cs = Inr (tok, rest) \<Longrightarrow> brackets_closed tok"
proof (induction cs arbitrary: tok rest rule: eat_token.induct)
  case 1
  then show ?case by simp
next
  case (2 c cs)
  show ?case
  proof (cases "c = CHR ''['' \<or> c = CHR ''{''")
    case True
    then obtain span r where sk: "skipToPair c (pairs c) (c # cs) = Some (span, r)"
      using "2.prems" by (auto split: option.splits)
    then obtain tok' where et: "eat_token r = Inr (tok', rest)" and tk: "tok = span @ tok'"
      using "2.prems" True by (auto split: sum.splits)
    have "brackets_closed tok'" using "2.IH"(1) [OF True sk refl et] .
    moreover have "c = CHR ''['' \<and> pairs c = CHR '']'' \<or> c = CHR ''{'' \<and> pairs c = CHR ''}''"
      using True by (auto simp: pairs_def)
    ultimately show ?thesis using brackets_closed_span [OF sk] tk by simp
  next
    case False
    note nb = this
    show ?thesis
    proof (cases "c = CHR ''+''")
      case True
      show ?thesis
      proof (cases "cs = [] \<or> hd cs \<in> set ''+>^*''")
        case True
        then obtain tok' where et: "eat_token cs = Inr (tok', rest)" and tk: "tok = c # tok'"
          using "2.prems" nb \<open>c = CHR ''+''\<close> by (auto simp: Let_def split: sum.splits)
        have "brackets_closed tok'"
          using "2.IH"(2) [OF nb \<open>c = CHR ''+''\<close> refl True et] .
        then show ?thesis using tk \<open>c = CHR ''+''\<close> by simp
      next
        case False
        then have "tok = []" using "2.prems" nb \<open>c = CHR ''+''\<close> by (auto simp: Let_def)
        then show ?thesis by simp
      qed
    next
      case False
      note np = this
      show ?thesis
      proof (cases "c \<noteq> CHR ''('' \<and> isAllowedChar c")
        case True
        then obtain tok' where et: "eat_token cs = Inr (tok', rest)" and tk: "tok = c # tok'"
          using "2.prems" nb np by (auto split: sum.splits)
        have "brackets_closed tok'" using "2.IH"(3) [OF nb np True et] .
        then show ?thesis using tk nb True by simp
      next
        case False
        then have "tok = []" using "2.prems" nb np by auto
        then show ?thesis by simp
      qed
    qed
  qed
qed

lemma find_multiplier_Some:
  "find_multiplier s = Some (p, ds) \<Longrightarrow> s = p @ CHR ''*'' # ds \<and> list_all isDigit ds"
  by (induction s arbitrary: p) (auto split: if_splits)

lemma digits_no_bracket:
  assumes "list_all isDigit ds" and "cls = CHR '']'' \<or> cls = CHR '')''"
  shows "cls \<notin> set (CHR ''*'' # ds)"
proof -
  have "\<not> isDigit cls" using assms(2) by (auto simp: isDigit_def)
  then show ?thesis using assms by (auto simp: list_all_iff)
qed

lemma brackets_closed_prefix:
  "brackets_closed (p @ CHR ''*'' # ds) \<Longrightarrow> list_all isDigit ds \<Longrightarrow> brackets_closed p"
proof (induction p rule: brackets_closed.induct)
  case 1
  then show ?case by simp
next
  case (2 c cs)
  show ?case
  proof (cases "c = CHR ''['' \<or> c = CHR ''(''")
    case True
    then have cl: "pairs c = CHR '']'' \<or> pairs c = CHR '')''" by (auto simp: pairs_def)
    from True "2.prems"(1) obtain span r where
      sk: "skipToPair c (pairs c) (c # cs @ CHR ''*'' # ds) = Some (span, r)"
      and bc: "brackets_closed r"
      by (auto split: option.splits)
    from skip_loop_restrict [of c "pairs c" 0 "c # cs" "CHR ''*'' # ds" span r]
         digits_no_bracket [OF "2.prems"(2) cl] sk
    obtain r1 where r1: "skipToPair c (pairs c) (c # cs) = Some (span, r1)"
      and r: "r = r1 @ CHR ''*'' # ds"
      by (auto simp: skipToPair_def)
    have "brackets_closed r1" using "2.IH"(1) [OF True r1 refl] bc r "2.prems"(2) by simp
    then show ?thesis using True r1 by simp
  next
    case False
    note nb = this
    show ?thesis
    proof (cases "c = CHR ''{''")
      case True
      then show ?thesis by simp
    next
      case False
      then have "brackets_closed (cs @ CHR ''*'' # ds)" using "2.prems"(1) nb by simp
      from "2.IH"(2) [OF nb False this "2.prems"(2)] show ?thesis using nb False by simp
    qed
  qed
qed

lemma setAbbreviation_returns:
  assumes "brackets_closed tok"
  shows "\<exists>res. setAbbreviation tok p = Some res"
proof -
  obtain abbr1 p1 where m: "(case find_multiplier tok of
                           None \<Rightarrow> (tok, p)
                         | Some (pre, ds) \<Rightarrow> (pre, setRepeat (group1 ds) p)) = (abbr1, p1)"
    by (cases "case find_multiplier tok of
                           None \<Rightarrow> (tok, p)
                         | Some (pre, ds) \<Rightarrow> (pre, setRepeat (group1 ds) p)")
  have "brackets_closed abbr1"
  proof (cases "find_multiplier tok")
    case None
    then show ?thesis using m assms by simp
  next
    case (Some pd)
    obtain pre ds where pd: "pd = (pre, ds)" by (cases pd)
    from find_multiplier_Some [of tok pre ds] Some pd
    have "tok = pre @ CHR ''*'' # ds" "list_all isDigit ds" by simp_all
    then have "brackets_closed pre" using assms brackets_closed_prefix by blast
    then show ?thesis using m Some pd by simp
  qed
  then obtain t where t: "extractText abbr1 = Some t" using extractText_returns by blast
  show ?thesis
    unfolding setAbbreviation_def m
    by (simp add: t Let_def split: sum.splits prod.splits option.splits)
qed

lemma scan_step_returns:
  assumes "\<And>abbr a. length abbr < length input \<Longrightarrow> \<exists>res. f abbr a = Some res"
  shows "\<exists>res. scan_step f st input = Some res"
proof (cases input)
  case Nil
  then show ?thesis by (simp add: scan_step_def)
next
  case (Cons ch cs)
  show ?thesis
  proof (cases "ch = CHR ''(''")
    case True
    show ?thesis
    proof (cases "skipToPair CHR ''('' CHR '')'' input")
      case None
      then show ?thesis using Cons True by (simp add: scan_step_def)
    next
      case (Some sr)
      obtain span rest where sr: "sr = (span, rest)" by (cases sr)
      have "length (stripped span) < length input"
        using stripped_span_length' [of "CHR ''(''" "CHR '')''" cs span rest] Some sr Cons True
        by simp
      from assms [OF this] obtain res where "f (stripped span) (next_id st) = Some res" by blast
      then show ?thesis
        using Cons True Some sr
        by (simp add: scan_step_def split: sum.splits prod.splits)
    qed
  next
    case False
    note no = this
    show ?thesis
    proof (cases "eat_token input")
      case (Inl e)
      then show ?thesis
        using Cons no by (simp add: scan_step_def del: eat_token.simps split: sum.splits)
    next
      case (Inr tr)
      obtain tok rest where tr: "tr = (tok, rest)" by (cases tr)
      then have "brackets_closed tok" using Inr eat_token_brackets_closed by blast
      from setAbbreviation_returns [OF this]
      obtain res where "setAbbreviation tok (props (node_at (context_path st) (tree st))) = Some res"
        by blast
      then show ?thesis
        using Cons no Inr tr
        by (simp add: scan_step_def del: eat_token.simps split: sum.splits prod.splits)
    qed
  qed
qed

lemma parse_result_returns: "r = Some x \<Longrightarrow> \<exists>res. parse_result r = Some res"
  by (cases x) (auto simp: parse_result_def)

lemma parse_loop_returns: "\<exists>res. parse_loop lp st cs = Some res"
proof (induction lp st cs rule: parse_loop.induct)
  case (1 loopProtector st)
  then show ?case by simp
next
  case (2 loopProtector st ch cs)
  show ?case
  proof (cases "loopProtector - 1 > 0")
    case False
    then show ?thesis by (simp add: parse_loop_Cons)
  next
    case True
    have inner: "\<exists>res. parseAbbreviation abbr a = Some res"
      if "length abbr < length (ch # cs)" for abbr a
    proof -
      from "2.IH"(1) [OF refl _ that] True
      obtain x where "parse_loop 1000 (init_state a) (trim abbr) = Some x" by auto
      then show ?thesis unfolding parseAbbreviation_def by (rule parse_result_returns)
    qed
    from scan_step_returns [of "ch # cs" parseAbbreviation st] inner
    obtain res where res: "scan_step parseAbbreviation st (ch # cs) = Some res" by blast
    show ?thesis
    proof (cases res)
      case (Inl e)
      then show ?thesis using res True by (simp add: parse_loop_Cons)
    next
      case (Inr sr)
      obtain st' rest where sr: "sr = (st', rest)" by (cases sr)
      have eq: "(\<lambda>abbr a. parse_result (parse_loop 1000 (init_state a) (trim abbr))) = parseAbbreviation"
        by (intro ext) (simp add: parseAbbreviation_def)
      from "2.IH"(2) True res Inr sr eq
      show ?thesis by (simp add: parse_loop_Cons)
    qed
  qed
qed

lemma parseAbbreviation_returns: "\<exists>res. parseAbbreviation abbr a = Some res"
  using parse_loop_returns [of 1000 "init_state a" "trim abbr"]
  by (auto simp: parseAbbreviation_def intro: parse_result_returns)

text \<open>
  The rounds of the loop without the counter: \<open>iterate k\<close> runs the body of the loop
  until the input is used up, for at most \<open>k\<close> rounds, and returns the state and the
  input that is left. \<open>outcome\<close> is the result of \<^verbatim>\<open>parseAbbreviation\<close> that the claim
  describes for it: the tree when no input is left, the error of the loop guard
  otherwise. \<open>remaining\<close> is the input that is left.
\<close>

fun iterate :: "nat \<Rightarrow> pstate \<Rightarrow> string \<Rightarrow> (error + pstate \<times> string) option" where
  "iterate 0 st cs = Some (Inr (st, cs))"
| "iterate (Suc k) st [] = Some (Inr (st, []))"
| "iterate (Suc k) st (ch # cs) =
     (case scan_step parseAbbreviation st (ch # cs) of
        None \<Rightarrow> None
      | Some (Inl e) \<Rightarrow> Some (Inl e)
      | Some (Inr (st', rest)) \<Rightarrow> iterate k st' rest)"

definition outcome :: "(error + pstate \<times> string) option \<Rightarrow> (error + node \<times> nat) option" where
  "outcome r =
     (case r of
        None \<Rightarrow> None
      | Some (Inl e) \<Rightarrow> Some (Inl e)
      | Some (Inr (st, rest)) \<Rightarrow>
          if rest = [] then Some (Inr (tree st, next_id st)) else Some (Inl EndlessLoop))"

definition remaining :: "(error + pstate \<times> string) option \<Rightarrow> string option" where
  "remaining r = (case r of Some (Inr (st, rest)) \<Rightarrow> Some rest | _ \<Rightarrow> None)"

lemma parse_loop_Nil_result:
  "parse_result (parse_loop (Suc k) st []) = Some (Inr (tree st, next_id st))"
  by (simp add: parse_result_def)

lemma parse_loop_iterate:
  "parse_result (parse_loop (Suc k) st cs) = outcome (iterate k st cs)"
proof (induction k arbitrary: st cs)
  case 0
  show ?case
    by (cases cs) (simp_all add: parse_result_def outcome_def parse_loop_Cons)
next
  case (Suc k)
  show ?case
  proof (cases cs)
    case Nil
    then show ?thesis by (simp add: parse_result_def outcome_def)
  next
    case (Cons ch cs')
    show ?thesis
    proof (cases "scan_step parseAbbreviation st (ch # cs')")
      case None
      then show ?thesis using Cons by (simp add: parse_loop_Cons parse_result_def outcome_def)
    next
      case (Some res)
      show ?thesis
      proof (cases res)
        case (Inl e)
        then show ?thesis
          using Cons Some by (simp add: parse_loop_Cons parse_result_def outcome_def)
      next
        case (Inr sr)
        obtain st' rest where "sr = (st', rest)" by (cases sr)
        then show ?thesis
          using Cons Some Inr Suc.IH [of st' rest] by (simp add: parse_loop_Cons)
      qed
    qed
  qed
qed

lemma scan_step_child: "scan_step f st (CHR ''>'' # cs) = Some (Inr (child_op st, cs))"
  by (simp add: scan_step_def)

lemma iterate_children:
  "iterate k st (replicate k CHR ''>'') = Some (Inr ((child_op ^^ k) st, []))"
proof (induction k arbitrary: st)
  case 0
  then show ?case by simp
next
  case (Suc k)
  have "iterate (Suc k) st (replicate (Suc k) CHR ''>'') = iterate k (child_op st) (replicate k CHR ''>'')"
    by (simp add: scan_step_child)
  then show ?case using Suc.IH [of "child_op st"] by (simp add: funpow_swap1)
qed

lemma iterate_children_left:
  "iterate k st (replicate (Suc k) CHR ''>'') = Some (Inr ((child_op ^^ k) st, ''>''))"
proof (induction k arbitrary: st)
  case 0
  then show ?case by simp
next
  case (Suc k)
  have "iterate (Suc k) st (replicate (Suc (Suc k)) CHR ''>'')
          = iterate k (child_op st) (replicate (Suc k) CHR ''>'')"
    by (simp add: scan_step_child)
  then show ?case using Suc.IH [of "child_op st"] by (simp add: funpow_swap1)
qed

lemma trim_children: "trim (replicate n CHR ''>'') = replicate n CHR ''>''"
proof (cases n)
  case 0
  then show ?thesis by (simp add: trim_def)
next
  case (Suc m)
  have "\<not> isSpace CHR ''>''" by (simp add: isSpace_def)
  then show ?thesis using Suc by (intro trim_id) (simp_all add: last_replicate)
qed

text \<open>
  Claim C8, as stated: the parser either completes or aborts with the error of the loop
  guard, and it aborts exactly when more than 1000 rounds occur. A string of 1000
  characters \<open>>\<close> is used up by exactly 1000 rounds, not more, and the parser aborts on
  it: the counter starts at 1000 and is decreased before it is tested, so the body runs
  999 times at most. And \<^verbatim>\<open>(a\<close> ends in a third way, with the error for the missing
  bracket.
\<close>

theorem thousand_rounds_abort:
  "remaining (iterate 1000 (init_state 0) (replicate 1000 CHR ''>'')) = Some []
   \<and> remaining (iterate 999 (init_state 0) (replicate 1000 CHR ''>'')) = Some ''>''
   \<and> parseAbbreviation (replicate 1000 CHR ''>'') 0 = Some (Inl EndlessLoop)
   \<and> parseAbbreviation ''(a'' 0 = Some (Inl (NoMatchingPair CHR '')''))"
proof -
  have a: "remaining (iterate 1000 (init_state 0) (replicate 1000 CHR ''>'')) = Some []"
    by (simp add: iterate_children remaining_def)
  have a': "remaining (iterate 999 (init_state 0) (replicate (Suc 999) CHR ''>'')) = Some ''>''"
    by (simp only: iterate_children_left remaining_def) simp
  have "parseAbbreviation (replicate (Suc 999) CHR ''>'') 0
          = outcome (iterate 999 (init_state 0) (replicate (Suc 999) CHR ''>''))"
    unfolding parseAbbreviation_def trim_children
    using parse_loop_iterate [of 999] by simp
  then have b: "parseAbbreviation (replicate 1000 CHR ''>'') 0 = Some (Inl EndlessLoop)"
    by (simp only: iterate_children_left outcome_def) simp
  have c: "parseAbbreviation ''(a'' 0 = Some (Inl (NoMatchingPair CHR '')''))"
    by code_simp
  show ?thesis using a a' b c by simp
qed

text \<open>
  Claim C8, amended. On every input \<^verbatim>\<open>parseAbbreviation\<close> returns: with a tree, with
  a syntax error, or with the error of the loop guard. Its result is the outcome of at
  most 999 rounds of the loop body: the error of a round that fails (a syntax error, or
  the error that the scan of a nested group ends with), else the tree when the rounds
  use the input up, else \<^verbatim>\<open>'Endless loop detected'\<close>. The bound is the constant
  1000 of the source, less one; nothing sets it from outside.
\<close>

theorem scan_loop_bound:
  "(\<exists>res. parseAbbreviation abbr a = Some res)
   \<and> parseAbbreviation abbr a = outcome (iterate 999 (init_state a) (trim abbr))"
proof -
  have "parseAbbreviation abbr a = outcome (iterate 999 (init_state a) (trim abbr))"
    unfolding parseAbbreviation_def using parse_loop_iterate [of 999] by simp
  then show ?thesis using parseAbbreviation_returns by blast
qed

section \<open>The round that meets a character the scan does not accept\<close>

text \<open>
  The simple characters are the characters of the name pattern and \<open>|\<close>.
\<close>

lemma simple_iff: "simple c = (reValidName_char c \<or> c = CHR ''|'')"
  by (auto simp: simple_def reValidName_char_def isAllowedChar_def isWordChar_def Let_def)












section \<open>A multiplier after a group\<close>

text \<open>
  A path is valid in a tree when every index on it is in range. \<^verbatim>\<open>context\<close> is
  always a node of the tree, so its path is valid.
\<close>

fun valid_path :: "nat list \<Rightarrow> node \<Rightarrow> bool" where
  "valid_path [] n = True"
| "valid_path (i # p) n = (i < length (children n) \<and> valid_path p (children n ! i))"

lemma node_at_update_at:
  "valid_path p t \<Longrightarrow> node_at p (update_at p f t) = f (node_at p t)"
proof (induction p arbitrary: t)
  case Nil
  then show ?case by simp
next
  case (Cons i p)
  then show ?case by (cases t) simp
qed

lemma update_at_twice:
  "valid_path p t \<Longrightarrow> update_at p f (update_at p g t) = update_at p (\<lambda>n. f (g n)) t"
proof (induction p arbitrary: t)
  case Nil
  then show ?case by simp
next
  case (Cons i p)
  then show ?case by (cases t) simp
qed

lemma valid_path_update_at:
  "valid_path p t \<Longrightarrow> valid_path p (update_at p f t)"
proof (induction p arbitrary: t)
  case Nil
  then show ?case by simp
next
  case (Cons i p)
  then show ?case by (cases t) simp
qed

lemma foldl_addChild:
  "valid_path p t \<Longrightarrow>
     foldl (\<lambda>t child. update_at p (addChild child) t) t cs
       = update_at p (\<lambda>n. Node (ident n) (props n) (children n @ cs)) t"
proof (induction cs arbitrary: t)
  case Nil
  have "(\<lambda>n. Node (ident n) (props n) (children n @ [])) = (\<lambda>n. n)" by (intro ext) simp
  moreover have "update_at p (\<lambda>n. n) t = t"
    using Nil by (induction p arbitrary: t) (case_tac t, simp, case_tac t, simp add: list_update_same_conv)
  ultimately show ?case by simp
next
  case (Cons c cs)
  have "foldl (\<lambda>t child. update_at p (addChild child) t) t (c # cs)
          = update_at p (\<lambda>n. Node (ident n) (props n) (children n @ cs)) (update_at p (addChild c) t)"
    using Cons.IH [OF valid_path_update_at [OF Cons.prems]] by simp
  also have "\<dots> = update_at p (\<lambda>n. Node (ident n) (props n) (children n @ c # cs)) t"
    using update_at_twice [OF Cons.prems] by (simp add: addChild_def)
  finally show ?case .
qed

lemma group_op_context:
  assumes "valid_path (context_path st) (tree st)"
  shows "node_at (context_path st) (tree (group_op inner (Some g) st))
           = Node (ident (node_at (context_path st) (tree st)))
                (setRepeat g (props (node_at (context_path st) (tree st))))
                (children (node_at (context_path st) (tree st)) @ children inner)"
proof -
  let ?cp = "context_path st"
  let ?t1 = "update_at ?cp (\<lambda>n. set_props (setRepeat g (props n)) n) (tree st)"
  have v1: "valid_path ?cp ?t1" using assms by (rule valid_path_update_at)
  have "tree (group_op inner (Some g) st)
          = update_at ?cp (\<lambda>n. Node (ident n) (props n) (children n @ children inner)) ?t1"
    using foldl_addChild [OF v1] by (simp add: group_op_def Let_def)
  then show ?thesis
    using node_at_update_at [OF v1] node_at_update_at [OF assms] by (simp add: set_props_def)
qed

lemma scan_step_group:
  assumes "skipToPair CHR ''('' CHR '')'' (CHR ''('' # cs) = Some (span, rest)"
    and "f (stripped span) (next_id st) = Some (Inr (inner, a))"
    and "match_multiplier rest = (m, rest')"
  shows "scan_step f st (CHR ''('' # cs) = Some (Inr (group_op inner m (st\<lparr>next_id := a\<rparr>), rest'))"
  using assms by (simp add: scan_step_def)

text \<open>
  Claim C2, as stated: for \<^verbatim>\<open>(div+span)*2\<close> the pipeline produces two copies of the
  context node, each with its own \<open>div\<close> and \<open>span\<close>. The tree that \<^verbatim>\<open>parse\<close>
  returns has no such copies: the context node is a group, squash replaces both copies
  by their children, and the root has the four children \<open>div\<close>, \<open>span\<close>, \<open>div\<close>,
  \<open>span\<close>, none of them a group.
\<close>

theorem group_multiplier_flattened:
  "parse ''(div+span)*2'' =
     Some (Inr (Node 0 new_props
       [element 3 ''div'' 1 [], element 4 ''span'' 1 [],
        element 6 ''div'' 2 [], element 7 ''span'' 2 []]))
   \<and> length [element 3 ''div'' 1 [], element 4 ''span'' 1 [],
        element 6 ''div'' 2 [], element 7 ''span'' 2 []] = 4
   \<and> map isGroup [element 3 ''div'' 1 [], element 4 ''span'' 1 [],
        element 6 ''div'' 2 [], element 7 ''span'' 2 []] = [False, False, False, False]"
  by code_simp

text \<open>
  Claim C2, amended. When a group is followed by a multiplier, the round of the loop
  creates no node for it: \<^verbatim>\<open>context\<close> stays the same node (same path, same
  address), its repeat fields are set from the multiplier, and the children of the
  inner root are appended to its children. For \<^verbatim>\<open>(div+span)*2\<close> the parsed tree is
  the root over the context node with \<^verbatim>\<open>repeatCount\<close> 2 over \<open>div\<close> and \<open>span\<close>;
  unroll yields two copies of the context node with the counters 1 and 2, the second at
  a new address with children at new addresses; squash then replaces both copies by
  their children, and \<^verbatim>\<open>parse\<close> returns the root over \<open>div\<close>, \<open>span\<close>, \<open>div\<close>,
  \<open>span\<close> with the counters 1, 1, 2, 2.
\<close>

theorem group_multiplier_on_context:
  "(valid_path (context_path st) (tree st)
      \<and> skipToPair CHR ''('' CHR '')'' (CHR ''('' # cs) = Some (span, rest)
      \<and> f (stripped span) (next_id st) = Some (Inr (inner, a))
      \<and> match_multiplier rest = (Some g, rest')
    \<longrightarrow> scan_step f st (CHR ''('' # cs)
          = Some (Inr (group_op inner (Some g) (st\<lparr>next_id := a\<rparr>), rest'))
        \<and> context_path (group_op inner (Some g) (st\<lparr>next_id := a\<rparr>)) = context_path st
        \<and> next_id (group_op inner (Some g) (st\<lparr>next_id := a\<rparr>)) = a
        \<and> node_at (context_path st) (tree (group_op inner (Some g) (st\<lparr>next_id := a\<rparr>)))
            = Node (ident (node_at (context_path st) (tree st)))
                (setRepeat g (props (node_at (context_path st) (tree st))))
                (children (node_at (context_path st) (tree st)) @ children inner))
   \<and> parseAbbreviation ''(div+span)*2'' 0 =
       Some (Inr (Node 0 new_props
         [Node 1 (new_props\<lparr>repeatCount := 2\<rparr>)
            [element 3 ''div'' 1 [], element 4 ''span'' 1 []]], 5))
   \<and> unroll (Node 0 new_props
         [Node 1 (new_props\<lparr>repeatCount := 2\<rparr>)
            [element 3 ''div'' 1 [], element 4 ''span'' 1 []]]) 5 =
       (Node 0 new_props
         [Node 1 new_props [element 3 ''div'' 1 [], element 4 ''span'' 1 []],
          Node 5 (new_props\<lparr>counter := 2\<rparr>) [element 6 ''div'' 2 [], element 7 ''span'' 2 []]], 8)
   \<and> parse ''(div+span)*2'' =
       Some (Inr (Node 0 new_props
         [element 3 ''div'' 1 [], element 4 ''span'' 1 [],
          element 6 ''div'' 2 [], element 7 ''span'' 2 []]))"
proof -
  have general: "scan_step f st (CHR ''('' # cs)
          = Some (Inr (group_op inner (Some g) (st\<lparr>next_id := a\<rparr>), rest'))
        \<and> context_path (group_op inner (Some g) (st\<lparr>next_id := a\<rparr>)) = context_path st
        \<and> next_id (group_op inner (Some g) (st\<lparr>next_id := a\<rparr>)) = a
        \<and> node_at (context_path st) (tree (group_op inner (Some g) (st\<lparr>next_id := a\<rparr>)))
            = Node (ident (node_at (context_path st) (tree st)))
                (setRepeat g (props (node_at (context_path st) (tree st))))
                (children (node_at (context_path st) (tree st)) @ children inner)"
    if v: "valid_path (context_path st) (tree st)"
      and sk: "skipToPair CHR ''('' CHR '')'' (CHR ''('' # cs) = Some (span, rest)"
      and fi: "f (stripped span) (next_id st) = Some (Inr (inner, a))"
      and mm: "match_multiplier rest = (Some g, rest')"
  proof -
    let ?st = "st\<lparr>next_id := a\<rparr>"
    have "valid_path (context_path ?st) (tree ?st)" using v by simp
    from group_op_context [OF this, of inner g]
    show ?thesis
      using scan_step_group [of cs span rest f st inner a "Some g" rest'] sk fi mm
      by (simp add: group_op_def Let_def)
  qed
  have c1: "parseAbbreviation ''(div+span)*2'' 0 =
       Some (Inr (Node 0 new_props
         [Node 1 (new_props\<lparr>repeatCount := 2\<rparr>)
            [element 3 ''div'' 1 [], element 4 ''span'' 1 []]], 5))"
    by code_simp
  have c2: "unroll (Node 0 new_props
         [Node 1 (new_props\<lparr>repeatCount := 2\<rparr>)
            [element 3 ''div'' 1 [], element 4 ''span'' 1 []]]) 5 =
       (Node 0 new_props
         [Node 1 new_props [element 3 ''div'' 1 [], element 4 ''span'' 1 []],
          Node 5 (new_props\<lparr>counter := 2\<rparr>) [element 6 ''div'' 2 [], element 7 ''span'' 2 []]], 8)"
    by code_simp
  have c3: "parse ''(div+span)*2'' =
       Some (Inr (Node 0 new_props
         [element 3 ''div'' 1 [], element 4 ''span'' 1 [],
          element 6 ''div'' 2 [], element 7 ''span'' 2 []]))"
    by code_simp
  show ?thesis using general c1 c2 c3 by blast
qed

text \<open>
  Claim C2, witness: the first round of the loop on \<^verbatim>\<open>(div+span)*2\<close>, from the
  initial state.
\<close>

theorem group_multiplier_on_context_witness:
  "valid_path (context_path (init_state 0)) (tree (init_state 0))
   \<and> skipToPair CHR ''('' CHR '')'' ''(div+span)*2'' = Some (''(div+span)'', ''*2'')
   \<and> parseAbbreviation (stripped ''(div+span)'') (next_id (init_state 0)) =
        Some (Inr (Node 2 new_props [element 3 ''div'' 1 [], element 4 ''span'' 1 []], 5))
   \<and> match_multiplier ''*2'' = (Some (Some ''2''), [])
   \<and> scan_step parseAbbreviation (init_state 0) ''(div+span)*2''
        = Some (Inr (group_op (Node 2 new_props [element 3 ''div'' 1 [], element 4 ''span'' 1 []])
                        (Some (Some ''2'')) ((init_state 0)\<lparr>next_id := 5\<rparr>), []))
   \<and> node_at [0] (tree (group_op (Node 2 new_props [element 3 ''div'' 1 [], element 4 ''span'' 1 []])
                        (Some (Some ''2'')) ((init_state 0)\<lparr>next_id := 5\<rparr>)))
        = Node 1 (new_props\<lparr>repeatCount := 2\<rparr>) [element 3 ''div'' 1 [], element 4 ''span'' 1 []]"
proof -
  have h1: "valid_path (context_path (init_state 0)) (tree (init_state 0))" by code_simp
  have h2: "skipToPair CHR ''('' CHR '')'' (CHR ''('' # ''div+span)*2'') = Some (''(div+span)'', ''*2'')"
    by code_simp
  have h3: "parseAbbreviation (stripped ''(div+span)'') (next_id (init_state 0)) =
        Some (Inr (Node 2 new_props [element 3 ''div'' 1 [], element 4 ''span'' 1 []], 5))"
    by code_simp
  have h4: "match_multiplier ''*2'' = (Some (Some ''2''), [])" by code_simp
  have c: "context_path (init_state 0) = [0]
           \<and> Node (ident (node_at [0] (tree (init_state 0))))
                (setRepeat (Some ''2'') (props (node_at [0] (tree (init_state 0)))))
                (children (node_at [0] (tree (init_state 0)))
                 @ children (Node 2 new_props [element 3 ''div'' 1 [], element 4 ''span'' 1 []]))
             = Node 1 (new_props\<lparr>repeatCount := 2\<rparr>) [element 3 ''div'' 1 [], element 4 ''span'' 1 []]"
    by code_simp
  from group_multiplier_on_context [of "init_state 0" "''div+span)*2''" "''(div+span)''" "''*2''"
      parseAbbreviation "Node 2 new_props [element 3 ''div'' 1 [], element 4 ''span'' 1 []]" 5
      "Some ''2''" "[]"] h1 h2 h3 h4
  have "scan_step parseAbbreviation (init_state 0) (CHR ''('' # ''div+span)*2'')
        = Some (Inr (group_op (Node 2 new_props [element 3 ''div'' 1 [], element 4 ''span'' 1 []])
                        (Some (Some ''2'')) ((init_state 0)\<lparr>next_id := 5\<rparr>), []))
     \<and> node_at (context_path (init_state 0))
          (tree (group_op (Node 2 new_props [element 3 ''div'' 1 [], element 4 ''span'' 1 []])
                        (Some (Some ''2'')) ((init_state 0)\<lparr>next_id := 5\<rparr>)))
        = Node (ident (node_at (context_path (init_state 0)) (tree (init_state 0))))
                (setRepeat (Some ''2'') (props (node_at (context_path (init_state 0)) (tree (init_state 0)))))
                (children (node_at (context_path (init_state 0)) (tree (init_state 0)))
                 @ children (Node 2 new_props [element 3 ''div'' 1 [], element 4 ''span'' 1 []]))"
    by blast
  then show ?thesis using h1 h2 h3 h4 c by simp
qed

section \<open>The context stays in the tree\<close>

text \<open>
  The path of \<^verbatim>\<open>context\<close> is never empty and always leads to a node of the tree: the
  reads \<open>children n ! i\<close> of \<open>node_at\<close> and \<open>update_at\<close> are in range in every state
  of the scan, and \<^verbatim>\<open>context.parent\<close> is never \<^verbatim>\<open>null\<close>.
\<close>

definition valid_state :: "pstate \<Rightarrow> bool" where
  "valid_state st = (context_path st \<noteq> [] \<and> valid_path (context_path st) (tree st))"

lemma valid_path_prefix: "valid_path (p @ q) t \<Longrightarrow> valid_path p t"
  by (induction p arbitrary: t) auto

lemma valid_path_butlast: "valid_path p t \<Longrightarrow> valid_path (butlast p) t"
  using valid_path_prefix [of "butlast p" "[last p]" t] by (cases "p = []") auto

lemma valid_path_addChild:
  "valid_path p t \<Longrightarrow>
     valid_path (p @ [length (children (node_at p t))]) (update_at p (addChild c) t)"
proof (induction p arbitrary: t)
  case Nil
  then show ?case by (simp add: addChild_def)
next
  case (Cons i p)
  then show ?case by (cases t) simp
qed

lemma new_child_valid: "valid_path p (tree st) \<Longrightarrow> valid_state (new_child p st)"
  by (simp add: valid_state_def new_child_def valid_path_addChild)

lemma init_state_valid: "valid_state (init_state a)"
  by (simp add: init_state_def new_child_valid)

lemma child_op_valid: "valid_state st \<Longrightarrow> valid_state (child_op st)"
  unfolding child_op_def by (rule new_child_valid) (simp add: valid_state_def)

lemma sibling_op_valid:
  assumes "valid_state st"
  shows "\<exists>st'. sibling_op st = Inr st' \<and> valid_state st'"
proof -
  have "valid_path (butlast (context_path st)) (tree st)"
    using assms by (simp add: valid_state_def valid_path_butlast)
  then have "valid_state (new_child (butlast (context_path st)) st)" by (rule new_child_valid)
  moreover have "sibling_op st = Inr (new_child (butlast (context_path st)) st)"
    using assms by (simp add: sibling_op_def valid_state_def)
  ultimately show ?thesis by simp
qed

lemma climb_op_valid: "valid_state st \<Longrightarrow> valid_state (climb_op st)"
  unfolding climb_op_def Let_def
  by (rule new_child_valid) (simp add: valid_state_def valid_path_butlast)

lemma valid_path_foldl:
  "valid_path p t \<Longrightarrow> valid_path p (foldl (\<lambda>t child. update_at p (f child) t) t cs)"
  by (induction cs arbitrary: t) (simp_all add: valid_path_update_at)

lemma group_op_valid: "valid_state st \<Longrightarrow> valid_state (group_op inner m st)"
  by (cases m)
     (simp_all add: group_op_def Let_def valid_state_def valid_path_foldl valid_path_update_at)

lemma next_id_valid [simp]: "valid_state (st\<lparr>next_id := a\<rparr>) = valid_state st"
  by (simp add: valid_state_def)

lemma set_props_valid:
  "valid_state st \<Longrightarrow>
     valid_state (st\<lparr>tree := update_at (context_path st) (set_props p) (tree st)\<rparr>)"
  by (simp add: valid_state_def valid_path_update_at)

lemma scan_step_valid:
  assumes "valid_state st" "scan_step f st input = Some (Inr (st', rest))"
  shows "valid_state st'"
proof (cases input)
  case Nil
  then show ?thesis using assms by (simp add: scan_step_def)
next
  case (Cons ch cs)
  from sibling_op_valid [OF assms(1)] obtain s1 where
    sb: "sibling_op st = Inr s1" "valid_state s1" by blast
  show ?thesis
    using assms Cons sb child_op_valid [OF assms(1)] climb_op_valid [OF assms(1)]
      set_props_valid [OF assms(1)] group_op_valid
    by (auto simp: scan_step_def simp del: eat_token.simps
             split: if_splits option.splits sum.splits prod.splits)
qed

lemma parse_loop_valid:
  "valid_state st \<Longrightarrow> parse_loop lp st cs = Some (Inr (lp', st')) \<Longrightarrow> valid_state st'"
proof (induction lp arbitrary: st cs)
  case 0
  then show ?case by (cases cs) (simp_all add: parse_loop_Cons)
next
  case (Suc lp)
  show ?case
  proof (cases cs)
    case Nil
    then show ?thesis using Suc.prems by simp
  next
    case (Cons ch cs')
    show ?thesis
    proof (cases "lp > 0")
      case False
      then show ?thesis using Suc.prems Cons by (simp add: parse_loop_Cons)
    next
      case True
      then obtain s1 rest where
        sc: "scan_step parseAbbreviation st (ch # cs') = Some (Inr (s1, rest))"
        and pl: "parse_loop lp s1 rest = Some (Inr (lp', st'))"
        using Suc.prems(2) Cons
        by (auto simp: parse_loop_Cons split: option.splits sum.splits prod.splits)
      from scan_step_valid [OF Suc.prems(1) sc] have "valid_state s1" .
      from Suc.IH [OF this pl] show ?thesis .
    qed
  qed
qed

section \<open>What unroll leaves\<close>

text \<open>
  The statement of the pass, in the words of the claim. \<open>erase\<close> forgets the addresses:
  two trees are structurally identical when \<open>erase\<close> maps them to the same tree.
  \<open>stamp k c\<close> is the child \<open>c\<close> with \<^verbatim>\<open>repeatCount\<close> reset to 1 and the counter
  \<open>k\<close> propagated to its whole subtree. \<open>copy_counters c\<close> are the counters of the
  copies of a repeating child: 1 for the child itself, then one for each clone.
  \<open>idents\<close> lists the addresses of a tree and \<open>counters\<close> its counters, both in
  document order. \<open>no_repeats t\<close> says that no node below the root of \<open>t\<close> is
  repeating. \<open>unrollE t\<close> is the result of unrolling \<open>t\<close>, addresses forgotten.
\<close>

fun erase :: "node \<Rightarrow> node" where
  "erase (Node a p cs) = Node 0 p (map erase cs)"

definition stamp :: "int \<Rightarrow> node \<Rightarrow> node" where
  "stamp k c = updateProperty (set_counter k) (set_props ((props c)\<lparr>repeatCount := 1\<rparr>) c)"

definition copy_counters :: "node \<Rightarrow> int list" where
  "copy_counters c = 1 # [2..repeatCount (props c)]"

fun idents :: "node \<Rightarrow> nat list" where
  "idents (Node a p cs) = a # concat (map idents cs)"

fun counters :: "node \<Rightarrow> int list" where
  "counters (Node a p cs) = counter p # concat (map counters cs)"

fun no_repeats :: "node \<Rightarrow> bool" where
  "no_repeats (Node a p cs) = list_all (\<lambda>c. \<not> isRepeating c \<and> no_repeats c) cs"

definition unrollE :: "node \<Rightarrow> node" where
  "unrollE t = erase (fst (unroll t 0))"

definition expected_copies :: "node \<Rightarrow> node list" where
  "expected_copies c =
     (if isRepeating c then map (\<lambda>k. erase (stamp k c)) (copy_counters c) else [erase c])"

definition unrolled_copies :: "node \<Rightarrow> node list" where
  "unrolled_copies c =
     (if isRepeating c then map (\<lambda>k. unrollE (stamp k c)) (copy_counters c) else [unrollE c])"

definition idents_list :: "node list \<Rightarrow> nat list" where
  "idents_list cs = concat (map idents cs)"

text \<open>
  \<open>extends s X s' X'\<close>: the addresses \<open>X'\<close> are the addresses \<open>X\<close> and the
  addresses handed out while the allocator went from \<open>s\<close> to \<open>s'\<close>, each once.
\<close>

definition extends :: "nat \<Rightarrow> nat list \<Rightarrow> nat \<Rightarrow> nat list \<Rightarrow> bool" where
  "extends s X s' X' = (s \<le> s' \<and> mset X' = mset X + mset [s..<s'])"

definition repeated :: "nat \<Rightarrow> string \<Rightarrow> int \<Rightarrow> node list \<Rightarrow> node" where
  "repeated a nm j cs =
     Node a (new_props\<lparr>raw_abbreviation := nm, p_name := Some nm, repeatCount := j\<rparr>) cs"

subsection \<open>The shape of the result\<close>

lemma erase_clone:
  "erase (fst (clone t s)) = erase t"
  "map erase (fst (clone_children cs s)) = map erase cs"
  by (induction t s and cs s rule: clone_clone_children.induct)
     (auto split: prod.splits)

lemma erase_updateProperty: "erase (updateProperty u t) = updateProperty u (erase t)"
  by (induction u t rule: updateProperty.induct) simp

lemma erase_set_props: "erase (set_props p t) = set_props p (erase t)"
  by (cases t) (simp add: set_props_def)

lemma props_erase [simp]: "props (erase t) = props t"
  by (cases t) simp

lemma erase_stamp: "erase (stamp k c) = stamp k (erase c)"
  by (simp add: stamp_def erase_updateProperty erase_set_props)

lemma isRepeating_erase [simp]: "isRepeating (erase c) = isRepeating c"
  by (simp add: isRepeating_def)

lemma updateProperty_twice:
  "updateProperty (set_counter m) (updateProperty (set_counter k) t)
     = updateProperty (set_counter m) t"
  by (induction "set_counter k" t rule: updateProperty.induct) (simp add: set_counter_def)

lemma restamp: "updateProperty (set_counter m) (stamp k c) = stamp m c"
  by (simp add: stamp_def updateProperty_twice)

lemma ident_clone: "ident (fst (clone t s)) = s"
  by (cases t) (simp split: prod.splits)

lemma ident_updateProperty [simp]: "ident (updateProperty u t) = ident t"
  by (cases t) simp

lemma clone_state:
  "s < snd (clone t s)"
  "s \<le> snd (clone_children cs s)"
proof (induction t s and cs s rule: clone_clone_children.induct)
  case (1 a p cs s)
  then show ?case by (auto split: prod.splits)
next
  case (2 s)
  then show ?case by simp
next
  case (3 c cs s)
  obtain c' s1 where c: "clone c s = (c', s1)" by (cases "clone c s")
  have "s < s1" using "3.IH"(1) c by simp
  moreover have "s1 \<le> snd (clone_children cs s1)" using "3.IH"(2) [OF c [symmetric] refl] .
  ultimately show ?case using c by (auto split: prod.splits)
qed

lemma clone_state_less: "s < snd (clone t s)"
  by (rule clone_state(1))

lemma clones_while_shape:
  "i < length xs \<Longrightarrow>
     \<exists>new. fst (clones_while j ch i xs s) = take (Suc i) xs @ new @ drop (Suc i) xs
          \<and> map erase new = map (\<lambda>m. erase (updateProperty (set_counter m) ch)) [2..j]
          \<and> (\<forall>n \<in> set new. s \<le> ident n)"
proof (induction j ch i xs s rule: clones_while.induct)
  case (1 j child i cs s)
  show ?case
  proof (cases "j - 1 > 0")
    case False
    then have "[2..j] = []" by simp
    then show ?thesis using False by (simp add: Let_def)
  next
    case True
    obtain c s' where cl: "clone child s = (c, s')" by (cases "clone child s")
    let ?n = "updateProperty (set_counter (j - 1 + 1)) c"
    let ?cs' = "insert_child ?n (i + 1) cs"
    have len: "i < length ?cs'" using "1.prems" by (simp add: insert_child_def)
    from "1.IH" [OF refl True refl cl [symmetric] len]
    obtain new where
      n1: "fst (clones_while (j - 1) child i ?cs' s') = take (Suc i) ?cs' @ new @ drop (Suc i) ?cs'"
      and n2: "map erase new = map (\<lambda>m. erase (updateProperty (set_counter m) child)) [2..j - 1]"
      and n3: "\<forall>n \<in> set new. s' \<le> ident n"
      by blast
    have t: "take (Suc i) ?cs' = take (Suc i) cs"
      using "1.prems" by (simp add: insert_child_def)
    have d: "drop (Suc i) ?cs' = ?n # drop (Suc i) cs"
      using "1.prems" by (simp add: insert_child_def)
    have ec: "erase c = erase child" using erase_clone(1) [of child s] cl by simp
    have ic: "ident ?n = s" using ident_clone [of child s] cl by simp
    have ss: "s < s'" using clone_state_less [of s child] cl by simp
    have up: "[2..j] = [2..j - 1] @ [j]" using True upto_rec2 [of 2 j] by simp
    have "fst (clones_while j child i cs s) = take (Suc i) cs @ (new @ [?n]) @ drop (Suc i) cs"
      using True cl n1 t d by (simp add: Let_def)
    moreover have "map erase (new @ [?n])
        = map (\<lambda>m. erase (updateProperty (set_counter m) child)) [2..j]"
      using n2 ec up by (simp add: erase_updateProperty)
    moreover have "\<forall>n \<in> set (new @ [?n]). s \<le> ident n"
      using n3 ic ss by auto
    ultimately show ?thesis by blast
  qed
qed

lemma unroll_for_prefix:
  "k \<le> length cs \<Longrightarrow>
     map erase (fst (unroll_for k cs s))
       = concat (map expected_copies (take k cs)) @ map erase (drop k cs)"
proof (induction k arbitrary: cs s)
  case 0
  then show ?case by simp
next
  case (Suc k)
  let ?child = "cs ! k"
  have kl: "k < length cs" using Suc.prems by simp
  have tk: "take (Suc k) cs = take k cs @ [?child]"
    using kl by (simp add: take_Suc_conv_app_nth)
  have dk: "drop k cs = ?child # drop (Suc k) cs"
    using kl by (simp add: Cons_nth_drop_Suc)
  show ?case
  proof (cases "isRepeating ?child")
    case False
    have ec: "expected_copies ?child = [erase ?child]"
      using False by (simp add: expected_copies_def)
    have "map erase (fst (unroll_for (Suc k) cs s)) = map erase (fst (unroll_for k cs s))"
      using False by simp
    also have "\<dots> = concat (map expected_copies (take k cs)) @ map erase (drop k cs)"
      using Suc.IH [of cs s] kl by simp
    finally show ?thesis using ec by (simp add: tk dk)
  next
    case True
    let ?j = "repeatCount (props ?child)"
    let ?child2 = "stamp 1 ?child"
    obtain cs' s' where cw: "clones_while ?j ?child2 k (cs[k := ?child2]) s = (cs', s')"
      by (cases "clones_while ?j ?child2 k (cs[k := ?child2]) s")
    have "k < length (cs[k := ?child2])" using kl by simp
    from clones_while_shape [OF this, of ?j ?child2 s] cw
    obtain new where
      n1: "cs' = take (Suc k) (cs[k := ?child2]) @ new @ drop (Suc k) (cs[k := ?child2])"
      and n2: "map erase new = map (\<lambda>m. erase (updateProperty (set_counter m) ?child2)) [2..?j]"
      by auto
    have cs': "cs' = take k cs @ ?child2 # new @ drop (Suc k) cs"
      using n1 kl by (simp add: take_Suc_conv_app_nth)
    have l': "k \<le> length cs'" using cs' kl by simp
    have t': "take k cs' = take k cs" using cs' kl by simp
    have d': "drop k cs' = ?child2 # new @ drop (Suc k) cs" using cs' kl by simp
    have "map erase (fst (unroll_for (Suc k) cs s)) = map erase (fst (unroll_for k cs' s'))"
      using True cw by (simp add: Let_def stamp_def)
    also have "\<dots> = concat (map expected_copies (take k cs))
                     @ (erase ?child2 # map erase new) @ map erase (drop (Suc k) cs)"
      using Suc.IH [OF l', of s'] by (simp add: t' d')
    finally have r: "map erase (fst (unroll_for (Suc k) cs s))
                   = concat (map expected_copies (take k cs))
                     @ (erase ?child2 # map erase new) @ map erase (drop (Suc k) cs)" .
    have "erase ?child2 # map erase new = expected_copies ?child"
      using True n2 by (simp add: expected_copies_def copy_counters_def restamp)
    then show ?thesis using r by (simp add: tk)
  qed
qed

lemma unroll_for_erase:
  "map erase (fst (unroll_for (length cs) cs s)) = concat (map expected_copies cs)"
  by (simp add: unroll_for_prefix)

lemma erase_erase [simp]: "erase (erase t) = erase t"
  by (induction t) simp

lemma expected_copies_erase: "expected_copies (erase c) = expected_copies c"
  by (simp add: expected_copies_def copy_counters_def erase_stamp)

lemma expected_copies_cong: "erase c = erase c' \<Longrightarrow> expected_copies c = expected_copies c'"
  using expected_copies_erase [of c] expected_copies_erase [of c'] by simp

lemma unroll_each_erase_cong:
  assumes "\<And>c c' s s'. c \<in> set cs \<Longrightarrow> erase c = erase c'
             \<Longrightarrow> erase (fst (unroll c s)) = erase (fst (unroll c' s'))"
    and "map erase cs = map erase cs'"
  shows "map erase (fst (unroll_each cs s)) = map erase (fst (unroll_each cs' s'))"
  using assms
proof (induction cs arbitrary: cs' s s')
  case Nil
  then show ?case by simp
next
  case (Cons c cs)
  from Cons.prems(2) obtain c' cs'' where c': "cs' = c' # cs''" "erase c = erase c'"
    "map erase cs = map erase cs''" by (cases cs') auto
  obtain d s1 where u: "unroll c s = (d, s1)" by (cases "unroll c s")
  obtain d' s1' where u': "unroll c' s' = (d', s1')" by (cases "unroll c' s'")
  obtain ds s2 where e: "unroll_each cs s1 = (ds, s2)" by (cases "unroll_each cs s1")
  obtain ds' s2' where e': "unroll_each cs'' s1' = (ds', s2')" by (cases "unroll_each cs'' s1'")
  have "erase d = erase d'" using Cons.prems(1) [of c c' s s'] c'(2) u u' by simp
  moreover have "map erase ds = map erase ds'"
    using Cons.IH [of cs'' s1 s1'] Cons.prems(1) c'(3) e e' by simp
  ultimately show ?case using c'(1) u u' e e' by simp
qed

lemma heights_less:
  "c \<in> set cs \<Longrightarrow> heights cs \<le> h \<Longrightarrow> height c < Suc h"
  using heights_le_iff [of cs h] by auto

lemma unroll_erase_cong:
  "erase t = erase t' \<Longrightarrow> erase (fst (unroll t s)) = erase (fst (unroll t' s'))"
proof (induction "height t" arbitrary: t t' s s' rule: less_induct)
  case less
  obtain a p cs where t: "t = Node a p cs" by (cases t)
  obtain a' p' cs' where t': "t' = Node a' p' cs'" by (cases t')
  have pp: "p = p'" and cc: "map erase cs = map erase cs'" using less.prems t t' by simp_all
  obtain cs1 s1 where f: "unroll_for (length cs) cs s = (cs1, s1)"
    by (cases "unroll_for (length cs) cs s")
  obtain cs1' s1' where f': "unroll_for (length cs') cs' s' = (cs1', s1')"
    by (cases "unroll_for (length cs') cs' s'")
  have "map expected_copies cs = map expected_copies cs'"
    using cc
  proof (induction cs arbitrary: cs')
    case Nil
    then show ?case by simp
  next
    case (Cons x xs)
    then obtain y ys where "cs' = y # ys" "erase x = erase y" "map erase xs = map erase ys"
      by (cases cs') auto
    then show ?case using Cons.IH [of ys] expected_copies_cong [of x y] by simp
  qed
  then have e1: "map erase cs1 = map erase cs1'"
    using unroll_for_erase [of cs s] unroll_for_erase [of cs' s'] f f' by simp
  have h1: "heights cs1 \<le> heights cs"
    using heights_unroll_for [of "length cs" cs "heights cs" s] f by simp
  have ih: "erase (fst (unroll c q)) = erase (fst (unroll c' q'))"
    if "c \<in> set cs1" "erase c = erase c'" for c c' q q'
  proof -
    have "height c < height t" using heights_less [OF that(1) h1] t by simp
    from less.hyps [OF this that(2)] show ?thesis .
  qed
  have "map erase (fst (unroll_each cs1 s1)) = map erase (fst (unroll_each cs1' s1'))"
    using unroll_each_erase_cong [of cs1 cs1' s1 s1'] ih e1 by blast
  then show ?case using t t' pp f f' by (auto split: prod.splits)
qed

lemma unroll_unrollE: "erase (fst (unroll t s)) = unrollE t"
  unfolding unrollE_def by (rule unroll_erase_cong) simp

lemma unrollE_erase: "unrollE (erase t) = unrollE t"
  unfolding unrollE_def by (rule unroll_erase_cong) simp

lemma unroll_each_unrollE: "map erase (fst (unroll_each cs s)) = map unrollE cs"
proof (induction cs arbitrary: s)
  case Nil
  then show ?case by simp
next
  case (Cons c cs)
  obtain d s1 where u: "unroll c s = (d, s1)" by (cases "unroll c s")
  obtain ds s2 where e: "unroll_each cs s1 = (ds, s2)" by (cases "unroll_each cs s1")
  have "erase d = unrollE c" using unroll_unrollE [of c s] u by simp
  moreover have "map erase ds = map unrollE cs" using Cons.IH [of s1] e by simp
  ultimately show ?case using u e by simp
qed

lemma unrollE_expected_copies: "map unrollE (expected_copies c) = unrolled_copies c"
  by (simp add: expected_copies_def unrolled_copies_def unrollE_erase comp_def)

lemma unroll_children:
  "map erase (children (fst (unroll (Node a p cs) s))) = concat (map unrolled_copies cs)"
proof -
  obtain cs1 s1 where f: "unroll_for (length cs) cs s = (cs1, s1)"
    by (cases "unroll_for (length cs) cs s")
  obtain cs2 s2 where e: "unroll_each cs1 s1 = (cs2, s2)" by (cases "unroll_each cs1 s1")
  have "map erase cs2 = map unrollE cs1" using unroll_each_unrollE [of cs1 s1] e by simp
  also have "\<dots> = map unrollE (map erase cs1)" by (simp add: unrollE_erase comp_def)
  also have "\<dots> = map unrollE (concat (map expected_copies cs))"
    using unroll_for_erase [of cs s] f by simp
  also have "\<dots> = concat (map unrolled_copies cs)"
    by (simp add: map_concat comp_def unrollE_expected_copies)
  finally show ?thesis using f e by simp
qed

lemma props_unroll: "props (fst (unroll t s)) = props t"
  by (cases t) (simp split: prod.splits)

lemma props_stamp: "props (stamp k c) = (props c)\<lparr>repeatCount := 1, counter := k\<rparr>"
  by (cases c) (simp add: stamp_def set_props_def set_counter_def)

lemma props_unrollE_stamp:
  "props (unrollE (stamp k c)) = (props c)\<lparr>repeatCount := 1, counter := k\<rparr>"
  by (simp add: unrollE_def props_unroll props_stamp)

lemma unroll_for_no_repeats:
  "k \<le> length cs \<Longrightarrow> list_all (\<lambda>c. \<not> isRepeating c) cs \<Longrightarrow> unroll_for k cs s = (cs, s)"
proof (induction k)
  case 0
  then show ?case by simp
next
  case (Suc k)
  then have "\<not> isRepeating (cs ! k)" by (simp add: list_all_length)
  then show ?case using Suc by simp
qed

lemma unroll_no_repeats:
  "no_repeats t \<Longrightarrow> unroll t s = (t, s)"
  "list_all (\<lambda>c. \<not> isRepeating c \<and> no_repeats c) cs \<Longrightarrow> unroll_each cs s = (cs, s)"
proof (induction t s and cs s rule: unroll_unroll_each.induct)
  case (1 a p cs s)
  then have nr: "list_all (\<lambda>c. \<not> isRepeating c \<and> no_repeats c) cs" by simp
  then have "list_all (\<lambda>c. \<not> isRepeating c) cs" by (simp add: list_all_iff)
  then have f: "unroll_for (length cs) cs s = (cs, s)" by (simp add: unroll_for_no_repeats)
  from "1.IH" [OF f [symmetric] refl nr] show ?case using f by simp
next
  case (2 s)
  then show ?case by simp
next
  case (3 c cs s)
  then have c: "no_repeats c" and cs: "list_all (\<lambda>c. \<not> isRepeating c \<and> no_repeats c) cs"
    by simp_all
  have u: "unroll c s = (c, s)" using "3.IH"(1) [OF c] .
  from "3.IH"(2) [OF u [symmetric] refl cs] show ?case using u by simp
qed

lemma isRepeating_updateProperty_counter:
  "isRepeating (updateProperty (set_counter k) t) = isRepeating t"
  by (cases t) (simp add: isRepeating_def set_counter_def)

lemma no_repeats_updateProperty_counter:
  "no_repeats (updateProperty (set_counter k) t) = no_repeats t"
proof (induction t)
  case (Node a p cs)
  then show ?case
    by (simp add: list_all_iff isRepeating_updateProperty_counter)
qed

lemma no_repeats_stamp: "no_repeats (stamp k c) = no_repeats c"
  by (cases c)
     (simp add: stamp_def set_props_def list_all_iff isRepeating_updateProperty_counter
        no_repeats_updateProperty_counter)

lemma counter_set_counter [simp]: "counter (set_counter k p) = k"
  by (simp add: set_counter_def)

lemma counters_updateProperty:
  "counters (updateProperty (set_counter k) t) = replicate (length (counters t)) k"
proof (induction t)
  case (Node a p cs)
  have "concat (map (\<lambda>c. counters (updateProperty (set_counter k) c)) cs)
          = replicate (length (concat (map counters cs))) k"
    using Node by (induction cs) (simp_all add: replicate_add)
  then show ?case by (simp add: comp_def)
qed

lemma length_counters_set_props: "length (counters (set_props p c)) = length (counters c)"
  by (cases c) (simp add: set_props_def)

lemma counters_stamp: "counters (stamp k c) = replicate (length (counters c)) k"
  by (simp add: stamp_def counters_updateProperty length_counters_set_props)

lemma counters_erase [simp]: "counters (erase t) = counters t"
  by (induction t) (simp add: comp_def cong: map_cong)

lemma unrollE_no_repeats:
  assumes "no_repeats c"
  shows "unrollE (stamp k c) = erase (stamp k c)"
    and "counters (unrollE (stamp k c)) = replicate (length (counters c)) k"
proof -
  have "no_repeats (stamp k c)" using assms by (simp add: no_repeats_stamp)
  then show "unrollE (stamp k c) = erase (stamp k c)"
    by (simp add: unrollE_def unroll_no_repeats(1))
  then show "counters (unrollE (stamp k c)) = replicate (length (counters c)) k"
    by (simp add: counters_stamp)
qed

subsection \<open>The addresses of the result\<close>

lemma idents_list_simps [simp]:
  "idents_list [] = []"
  "idents_list (c # cs) = idents c @ idents_list cs"
  "idents_list (xs @ ys) = idents_list xs @ idents_list ys"
  by (simp_all add: idents_list_def)

lemma idents_Node [simp]: "idents (Node a p cs) = a # idents_list cs"
  by (simp add: idents_list_def)

declare idents.simps [simp del]

lemma upt_join: "i \<le> j \<Longrightarrow> j \<le> k \<Longrightarrow> [i..<j] @ [j..<k] = [i..<k]"
  by (metis le_iff_add upt_add_eq_append)

lemma idents_clone:
  "idents (fst (clone t s)) = [s..<snd (clone t s)] \<and> s < snd (clone t s)"
  "idents_list (fst (clone_children cs s)) = [s..<snd (clone_children cs s)]
     \<and> s \<le> snd (clone_children cs s)"
proof (induction t s and cs s rule: clone_clone_children.induct)
  case (1 a p cs s)
  obtain cs' s' where c: "clone_children cs (Suc s) = (cs', s')"
    by (cases "clone_children cs (Suc s)")
  then have "idents_list cs' = [Suc s..<s']" "Suc s \<le> s'" using 1 by simp_all
  then show ?case using c by (simp add: upt_conv_Cons)
next
  case (2 s)
  then show ?case by simp
next
  case (3 c cs s)
  obtain c' s1 where c: "clone c s = (c', s1)" by (cases "clone c s")
  obtain cs' s2 where cs: "clone_children cs s1 = (cs', s2)" by (cases "clone_children cs s1")
  have a: "idents c' = [s..<s1]" "s < s1" using "3.IH"(1) c by simp_all
  have b: "idents_list cs' = [s1..<s2]" "s1 \<le> s2" using "3.IH"(2) [OF c [symmetric] refl] cs by simp_all
  show ?case using a b c cs by (simp add: upt_join)
qed

lemma idents_updateProperty [simp]: "idents (updateProperty u t) = idents t"
proof (induction u t rule: updateProperty.induct)
  case (1 upd a p cs)
  then have "idents_list (map (updateProperty upd) cs) = idents_list cs"
    by (induction cs) simp_all
  then show ?case by simp
qed

lemma idents_set_props [simp]: "idents (set_props p t) = idents t"
  by (cases t) (simp add: set_props_def)

lemma idents_stamp [simp]: "idents (stamp k c) = idents c"
  by (simp add: stamp_def)

lemma extends_refl: "extends s X s X"
  by (simp add: extends_def)

lemma extends_trans: "extends s X s1 X1 \<Longrightarrow> extends s1 X1 s2 X2 \<Longrightarrow> extends s X s2 X2"
proof -
  assume a: "extends s X s1 X1" and b: "extends s1 X1 s2 X2"
  then have le: "s \<le> s1" "s1 \<le> s2" by (simp_all add: extends_def)
  have "mset [s..<s2] = mset [s..<s1] + mset [s1..<s2]"
    using upt_join [OF le] by (metis mset_append)
  then show ?thesis using a b le by (simp add: extends_def)
qed

lemma idents_list_insert:
  "mset (idents_list (insert_child c k cs)) = mset (idents_list cs) + mset (idents c)"
proof -
  have "mset (idents_list cs) = mset (idents_list (take k cs)) + mset (idents_list (drop k cs))"
    by (metis append_take_drop_id idents_list_simps(3) mset_append)
  then show ?thesis by (simp add: insert_child_def)
qed

lemma clones_while_extends:
  "extends s (idents_list cs) (snd (clones_while j ch i cs s))
     (idents_list (fst (clones_while j ch i cs s)))"
proof (induction j ch i cs s rule: clones_while.induct)
  case (1 j child i cs s)
  show ?case
  proof (cases "j - 1 > 0")
    case False
    then show ?thesis by (simp add: Let_def extends_refl)
  next
    case True
    obtain c s' where cl: "clone child s = (c, s')" by (cases "clone child s")
    let ?cs' = "insert_child (updateProperty (set_counter (j - 1 + 1)) c) (i + 1) cs"
    have ic: "idents c = [s..<s']" "s < s'" using idents_clone(1) [of child s] cl by simp_all
    have "extends s (idents_list cs) s' (idents_list ?cs')"
      using ic by (simp add: extends_def idents_list_insert)
    moreover have "extends s' (idents_list ?cs') (snd (clones_while (j - 1) child i ?cs' s'))
                     (idents_list (fst (clones_while (j - 1) child i ?cs' s')))"
      using "1.IH" [OF refl True refl cl [symmetric]] .
    ultimately have "extends s (idents_list cs) (snd (clones_while (j - 1) child i ?cs' s'))
                     (idents_list (fst (clones_while (j - 1) child i ?cs' s')))"
      by (rule extends_trans)
    then show ?thesis using True cl by (simp add: Let_def)
  qed
qed

lemma idents_list_update:
  "i < length cs \<Longrightarrow> idents c = idents (cs ! i) \<Longrightarrow> idents_list (cs[i := c]) = idents_list cs"
proof -
  assume a: "i < length cs" and b: "idents c = idents (cs ! i)"
  have "cs[i := c] = take i cs @ c # drop (Suc i) cs" using a by (rule upd_conv_take_nth_drop)
  moreover have "cs = take i cs @ cs ! i # drop (Suc i) cs" using a by (rule id_take_nth_drop)
  ultimately show ?thesis using b
    by (metis idents_list_simps(2) idents_list_simps(3))
qed

lemma unroll_for_extends:
  "k \<le> length cs \<Longrightarrow>
     extends s (idents_list cs) (snd (unroll_for k cs s)) (idents_list (fst (unroll_for k cs s)))"
proof (induction k arbitrary: cs s)
  case 0
  then show ?case by (simp add: extends_refl)
next
  case (Suc k)
  let ?child = "cs ! k"
  have kl: "k < length cs" using Suc.prems by simp
  show ?case
  proof (cases "isRepeating ?child")
    case False
    then show ?thesis using Suc.IH [of cs s] kl by simp
  next
    case True
    let ?j = "repeatCount (props ?child)"
    let ?child2 = "stamp 1 ?child"
    obtain cs' s' where cw: "clones_while ?j ?child2 k (cs[k := ?child2]) s = (cs', s')"
      by (cases "clones_while ?j ?child2 k (cs[k := ?child2]) s")
    have "idents_list (cs[k := ?child2]) = idents_list cs"
      using kl by (simp add: idents_list_update)
    then have e1: "extends s (idents_list cs) s' (idents_list cs')"
      using clones_while_extends [of s "cs[k := ?child2]" ?j ?child2 k] cw by simp
    have l': "k \<le> length cs'"
      using clones_while_length [of "cs[k := ?child2]" ?j ?child2 k s] cw kl by simp
    have "extends s' (idents_list cs') (snd (unroll_for k cs' s'))
            (idents_list (fst (unroll_for k cs' s')))"
      using Suc.IH [OF l'] .
    with e1 have "extends s (idents_list cs) (snd (unroll_for k cs' s'))
            (idents_list (fst (unroll_for k cs' s')))"
      by (rule extends_trans)
    then show ?thesis using True cw by (simp add: Let_def stamp_def)
  qed
qed

lemma unroll_extends:
  "extends s (idents t) (snd (unroll t s)) (idents (fst (unroll t s)))"
  "extends s (idents_list cs) (snd (unroll_each cs s)) (idents_list (fst (unroll_each cs s)))"
proof (induction t s and cs s rule: unroll_unroll_each.induct)
  case (1 a p cs s)
  obtain cs1 s1 where f: "unroll_for (length cs) cs s = (cs1, s1)"
    by (cases "unroll_for (length cs) cs s")
  obtain cs2 s2 where e: "unroll_each cs1 s1 = (cs2, s2)" by (cases "unroll_each cs1 s1")
  have "extends s (idents_list cs) s1 (idents_list cs1)"
    using unroll_for_extends [of "length cs" cs s] f by simp
  moreover have "extends s1 (idents_list cs1) s2 (idents_list cs2)"
    using "1.IH" [OF f [symmetric] refl] e by simp
  ultimately have "extends s (idents_list cs) s2 (idents_list cs2)" by (rule extends_trans)
  then show ?case using f e by (simp add: extends_def)
next
  case (2 s)
  then show ?case by (simp add: extends_refl)
next
  case (3 c cs s)
  obtain c' s1 where u: "unroll c s = (c', s1)" by (cases "unroll c s")
  obtain cs' s2 where e: "unroll_each cs s1 = (cs', s2)" by (cases "unroll_each cs s1")
  have a: "extends s (idents c) s1 (idents c')" using "3.IH"(1) u by simp
  have b: "extends s1 (idents_list cs) s2 (idents_list cs')"
    using "3.IH"(2) [OF u [symmetric] refl] e by simp
  have le: "s \<le> s1" "s1 \<le> s2" using a b by (simp_all add: extends_def)
  have "mset [s..<s2] = mset [s..<s1] + mset [s1..<s2]"
    using upt_join [OF le] by (metis mset_append)
  then show ?case using a b u e by (simp add: extends_def)
qed

lemma extends_distinct:
  assumes "extends s X s' X'" "distinct X" "\<forall>i \<in> set X. i < s"
  shows "distinct X' \<and> set X' = set X \<union> {s..<s'}"
proof -
  have m: "mset X' = mset (X @ [s..<s'])" using assms(1) by (simp add: extends_def)
  have "distinct (X @ [s..<s'])" using assms(2,3) by auto
  then have "distinct X'" using m by (metis mset_eq_imp_distinct_iff)
  moreover have "set X' = set (X @ [s..<s'])" using m by (metis mset_eq_setD)
  ultimately show ?thesis by simp
qed

lemma unroll_addresses:
  assumes "distinct (idents t)" "\<forall>i \<in> set (idents t). i < s"
  shows "distinct (idents (fst (unroll t s)))"
    and "set (idents (fst (unroll t s))) = set (idents t) \<union> {s..<snd (unroll t s)}"
  using extends_distinct [OF unroll_extends(1) assms] by simp_all

lemma ident_set_props [simp]: "ident (set_props p t) = ident t"
  by (simp add: set_props_def)

lemma ident_stamp [simp]: "ident (stamp k c) = ident c"
  by (simp add: stamp_def)

lemma unroll_for_state: "k \<le> length cs \<Longrightarrow> s \<le> snd (unroll_for k cs s)"
  using unroll_for_extends [of k cs s] by (simp add: extends_def)

lemma clones_while_state: "s \<le> snd (clones_while j ch i cs s)"
  using clones_while_extends [of s cs j ch i] by (simp add: extends_def)

lemma unroll_for_roots:
  "k \<le> length cs \<Longrightarrow> s0 \<le> s \<Longrightarrow>
     filter (\<lambda>a. a < s0) (map ident (fst (unroll_for k cs s)))
       = filter (\<lambda>a. a < s0) (map ident cs)"
proof (induction k arbitrary: cs s)
  case 0
  then show ?case by simp
next
  case (Suc k)
  let ?child = "cs ! k"
  have kl: "k < length cs" using Suc.prems(1) by simp
  show ?case
  proof (cases "isRepeating ?child")
    case False
    then show ?thesis using Suc.IH [of cs s] Suc.prems kl by simp
  next
    case True
    let ?j = "repeatCount (props ?child)"
    let ?child2 = "stamp 1 ?child"
    obtain cs' s' where cw: "clones_while ?j ?child2 k (cs[k := ?child2]) s = (cs', s')"
      by (cases "clones_while ?j ?child2 k (cs[k := ?child2]) s")
    have "k < length (cs[k := ?child2])" using kl by simp
    from clones_while_shape [OF this, of ?j ?child2 s] cw
    obtain new where
      n1: "cs' = take (Suc k) (cs[k := ?child2]) @ new @ drop (Suc k) (cs[k := ?child2])"
      and n3: "\<forall>n \<in> set new. s \<le> ident n"
      by auto
    have cs': "cs' = take k cs @ ?child2 # new @ drop (Suc k) cs"
      using n1 kl by (simp add: take_Suc_conv_app_nth)
    have l': "k \<le> length cs'" using cs' kl by simp
    have s': "s0 \<le> s'" using clones_while_state [of s ?j ?child2 k "cs[k := ?child2]"] cw Suc.prems(2)
      by simp
    have "filter (\<lambda>a. a < s0) (map ident new) = []"
      using n3 Suc.prems(2) by (auto simp: filter_empty_conv)
    then have "filter (\<lambda>a. a < s0) (map ident cs')
             = filter (\<lambda>a. a < s0) (map ident (take k cs @ ?child # drop (Suc k) cs))"
      unfolding cs' by simp
    also have "take k cs @ ?child # drop (Suc k) cs = cs"
      using kl by (simp add: id_take_nth_drop [symmetric])
    finally have "filter (\<lambda>a. a < s0) (map ident cs') = filter (\<lambda>a. a < s0) (map ident cs)" .
    then show ?thesis using True cw Suc.IH [OF l' s'] by (simp add: Let_def stamp_def)
  qed
qed

lemma ident_unroll:
  "ident (fst (unroll t s)) = ident t"
  "map ident (fst (unroll_each cs s)) = map ident cs"
  by (induction t s and cs s rule: unroll_unroll_each.induct)
     (auto split: prod.splits)

lemma unroll_roots:
  assumes "list_all (\<lambda>c. ident c < s) cs"
  shows "filter (\<lambda>a. a < s) (map ident (children (fst (unroll (Node a p cs) s)))) = map ident cs"
proof -
  obtain cs1 s1 where f: "unroll_for (length cs) cs s = (cs1, s1)"
    by (cases "unroll_for (length cs) cs s")
  obtain cs2 s2 where e: "unroll_each cs1 s1 = (cs2, s2)" by (cases "unroll_each cs1 s1")
  have "map ident cs2 = map ident cs1" using ident_unroll(2) [of cs1 s1] e by simp
  moreover have "filter (\<lambda>a. a < s) (map ident cs1) = filter (\<lambda>a. a < s) (map ident cs)"
    using unroll_for_roots [of "length cs" cs s s] f by simp
  moreover have "filter (\<lambda>a. a < s) (map ident cs) = map ident cs"
    using assms by (simp add: list_all_iff)
  ultimately show ?thesis using f e by simp
qed

subsection \<open>The claim\<close>

text \<open>
  Claim C1, as stated: every copy of a repeated child carries its counter on its whole
  subtree. It does not when a descendant repeats too: the recursion of \<^verbatim>\<open>unroll\<close>
  into the copy numbers the copies of that descendant anew. In the tree of
  \<^verbatim>\<open>ul*2>li*3\<close> the second copy of \<open>ul\<close> has the counter 2 and its three \<open>li\<close>
  have the counters 1, 2, 3.
\<close>

theorem nested_repeat_counters:
  "parseAbbreviation ''ul*2>li*3'' 0 =
     Some (Inr (Node 0 new_props [repeated 1 ''ul'' 2 [repeated 2 ''li'' 3 []]], 3))
   \<and> fst (unroll (Node 0 new_props [repeated 1 ''ul'' 2 [repeated 2 ''li'' 3 []]]) 3) =
       Node 0 new_props
         [element 1 ''ul'' 1 [element 2 ''li'' 1 [], element 6 ''li'' 2 [], element 5 ''li'' 3 []],
          element 3 ''ul'' 2 [element 4 ''li'' 1 [], element 8 ''li'' 2 [], element 7 ''li'' 3 []]]
   \<and> counters (element 3 ''ul'' 2 [element 4 ''li'' 1 [], element 8 ''li'' 2 [], element 7 ''li'' 3 []])
       = [2, 1, 2, 3]"
  by code_simp

text \<open>
  Claim C1, amended. For every tree, after the unroll pass the children of a node are,
  in order, the copies of its former children. A child that was repeating with
  \<^verbatim>\<open>repeatCount\<close> \<open>j\<close> is there as sibling copies with the counters 1 to \<open>j\<close> from
  left to right (one copy when \<open>j\<close> is 1 and the repeat is implicit); the copy with
  the counter \<open>k\<close> is the unrolled form of the child with \<^verbatim>\<open>repeatCount\<close> reset to
  1 and \<open>k\<close> propagated to its whole subtree, so the copies are structurally identical
  up to their counters, each has \<^verbatim>\<open>repeatCount\<close> 1 and the counter \<open>k\<close>, and its
  whole subtree carries \<open>k\<close> when no node below the child repeats (a repeating
  descendant is numbered anew by its own copies). The former children are still
  children, in their order, and every other child is a new node. All nodes of the result
  have distinct addresses, those of the given tree and newly allocated ones: a clone
  shares no node with the original. And \<^verbatim>\<open>div>ul>li*3\<close> parses to the root over
  \<open>div\<close> over \<open>ul\<close> over three \<open>li\<close> with the counters 1, 2, 3.
\<close>

theorem unroll_copies:
  "map erase (children (fst (unroll (Node a p cs) s))) = concat (map unrolled_copies cs)
   \<and> (list_all (\<lambda>c. ident c < s) cs \<longrightarrow>
        filter (\<lambda>i. i < s) (map ident (children (fst (unroll (Node a p cs) s)))) = map ident cs)
   \<and> (1 \<le> repeatCount (props c) \<longrightarrow> copy_counters c = [1..repeatCount (props c)])
   \<and> props (unrollE (stamp k c)) = (props c)\<lparr>repeatCount := 1, counter := k\<rparr>
   \<and> (no_repeats c \<longrightarrow> counters (unrollE (stamp k c)) = replicate (length (counters c)) k)
   \<and> (distinct (idents t) \<and> list_all (\<lambda>i. i < s) (idents t) \<longrightarrow>
        distinct (idents (fst (unroll t s)))
        \<and> set (idents (fst (unroll t s))) = set (idents t) \<union> {s..<snd (unroll t s)})
   \<and> parse ''div>ul>li*3'' =
       Some (Inr (Node 0 new_props
         [element 1 ''div'' 1 [element 2 ''ul'' 1
            [element 3 ''li'' 1 [], element 5 ''li'' 2 [], element 4 ''li'' 3 []]]]))"
proof -
  have a: "map erase (children (fst (unroll (Node a p cs) s))) = concat (map unrolled_copies cs)"
    by (rule unroll_children)
  have b: "filter (\<lambda>i. i < s) (map ident (children (fst (unroll (Node a p cs) s)))) = map ident cs"
    if "list_all (\<lambda>c. ident c < s) cs"
    using that by (rule unroll_roots)
  have c: "copy_counters c = [1..repeatCount (props c)]" if "1 \<le> repeatCount (props c)"
    using that upto_rec1 [of 1 "repeatCount (props c)"] by (simp add: copy_counters_def)
  have d: "props (unrollE (stamp k c)) = (props c)\<lparr>repeatCount := 1, counter := k\<rparr>"
    by (rule props_unrollE_stamp)
  have e: "counters (unrollE (stamp k c)) = replicate (length (counters c)) k" if "no_repeats c"
    using that by (rule unrollE_no_repeats(2))
  have f: "distinct (idents (fst (unroll t s)))
        \<and> set (idents (fst (unroll t s))) = set (idents t) \<union> {s..<snd (unroll t s)}"
    if "distinct (idents t) \<and> list_all (\<lambda>i. i < s) (idents t)"
    using that unroll_addresses [of t s] by (simp add: list_all_iff)
  have g: "parse ''div>ul>li*3'' =
       Some (Inr (Node 0 new_props
         [element 1 ''div'' 1 [element 2 ''ul'' 1
            [element 3 ''li'' 1 [], element 5 ''li'' 2 [], element 4 ''li'' 3 []]]]))"
    by code_simp
  show ?thesis using a b c d e f g by blast
qed

text \<open>
  Claim C1, witness: the node \<open>ul\<close> of \<^verbatim>\<open>div>ul>li*3\<close> with its child \<open>li\<close> of
  \<^verbatim>\<open>repeatCount\<close> 3, unrolled with the allocator at 4.
\<close>

theorem unroll_copies_witness:
  "list_all (\<lambda>c. ident c < 4) [repeated 3 ''li'' 3 []]
   \<and> 1 \<le> repeatCount (props (repeated 3 ''li'' 3 []))
   \<and> no_repeats (repeated 3 ''li'' 3 [])
   \<and> distinct (idents (element 2 ''ul'' 1 [repeated 3 ''li'' 3 []]))
   \<and> list_all (\<lambda>i. i < 4) (idents (element 2 ''ul'' 1 [repeated 3 ''li'' 3 []]))
   \<and> map erase (children (fst (unroll (element 2 ''ul'' 1 [repeated 3 ''li'' 3 []]) 4)))
       = [element 0 ''li'' 1 [], element 0 ''li'' 2 [], element 0 ''li'' 3 []]
   \<and> filter (\<lambda>i. i < 4)
        (map ident (children (fst (unroll (element 2 ''ul'' 1 [repeated 3 ''li'' 3 []]) 4)))) = [3]
   \<and> copy_counters (repeated 3 ''li'' 3 []) = [1, 2, 3]
   \<and> counters (unrollE (stamp 2 (repeated 3 ''li'' 3 []))) = [2]
   \<and> distinct (idents (fst (unroll (element 2 ''ul'' 1 [repeated 3 ''li'' 3 []]) 4)))
   \<and> set (idents (fst (unroll (element 2 ''ul'' 1 [repeated 3 ''li'' 3 []]) 4))) = {2, 3, 4, 5}"
proof -
  let ?li = "repeated 3 ''li'' 3 []"
  let ?ul = "element 2 ''ul'' 1 [?li]"
  have ul: "?ul = Node 2 (new_props\<lparr>raw_abbreviation := ''ul'', counter := 1, p_name := Some ''ul''\<rparr>) [?li]"
    by (simp add: element_def)
  have h1: "list_all (\<lambda>c. ident c < 4) [?li]" by code_simp
  have h2: "1 \<le> repeatCount (props ?li)" by code_simp
  have h3: "no_repeats ?li" by code_simp
  have h4: "distinct (idents ?ul) \<and> list_all (\<lambda>i. i < 4) (idents ?ul)" by code_simp
  have e1: "concat (map unrolled_copies [?li])
              = [element 0 ''li'' 1 [], element 0 ''li'' 2 [], element 0 ''li'' 3 []]"
    by code_simp
  have e2: "[1..repeatCount (props ?li)] = [1, 2, 3]" by code_simp
  have e3: "replicate (length (counters ?li)) (2::int) = [2]" by code_simp
  have e4: "set (idents ?ul) \<union> {4..<snd (unroll ?ul 4)} = {2, 3, 4, 5}" by code_simp
  have e5: "map ident [?li] = [3]" by code_simp
  note th = unroll_copies [of 2 "new_props\<lparr>raw_abbreviation := ''ul'', counter := 1, p_name := Some ''ul''\<rparr>"
      "[?li]" 4 ?li 2 ?ul, folded ul]
  from th h1 h2 h3 h4 have
    "map erase (children (fst (unroll ?ul 4))) = concat (map unrolled_copies [?li])"
    "filter (\<lambda>i. i < 4) (map ident (children (fst (unroll ?ul 4)))) = map ident [?li]"
    "copy_counters ?li = [1..repeatCount (props ?li)]"
    "counters (unrollE (stamp 2 ?li)) = replicate (length (counters ?li)) 2"
    "distinct (idents (fst (unroll ?ul 4)))"
    "set (idents (fst (unroll ?ul 4))) = set (idents ?ul) \<union> {4..<snd (unroll ?ul 4)}"
    by blast+
  then show ?thesis using h1 h2 h3 h4 e1 e2 e3 e4 e5 by (simp only: simp_thms)
qed

end
